theory Spec2Isabelle
  imports Main "HOL-Library.Word" "HOL-Library.Signed_Division"
begin

unbundle bit_operations_syntax

section \<open>Shared types and coordinate utilities (types.c)\<close>

text \<open>
  Colours, piece kinds, ranks, files and squares are plain C \<open>int\<close>s in the source; they
  are integers here too.  A bitboard is an unsigned 64-bit word, one bit per square.

  Modelled from the spec: the header \<open>types.h\<close> with the enumerations is not part
  of the sources.  The values below are the ones the code relies on: \<open>opposite\<close>
  computes \<open>color ^ BLACK\<close> (so the colours are 0 and 1), \<open>square_from\<close> computes
  \<open>NB_FILE * rank + file\<close> with eight files, \<open>push_inc\<close> reads \<open>{UP, DOWN}\<close>,
  \<open>piece_on\<close> names the order "pawns first, then pieces in ascending order, Q and K at
  the end", and \<open>set_pos\<close> starts its walk on \<open>A8\<close> and steps back sixteen squares at
  every rank separator.
\<close>

type_synonym bitboard = "64 word"

definition WHITE :: int where "WHITE = 0"
definition BLACK :: int where "BLACK = 1"
definition NB_COLOR :: int where "NB_COLOR = 2"

definition KNIGHT :: int where "KNIGHT = 0"
definition BISHOP :: int where "BISHOP = 1"
definition ROOK :: int where "ROOK = 2"
definition QUEEN :: int where "QUEEN = 3"
definition KING :: int where "KING = 4"
definition PAWN :: int where "PAWN = 5"
definition NB_PIECE :: int where "NB_PIECE = 6"

definition RANK_1 :: int where "RANK_1 = 0"
definition RANK_8 :: int where "RANK_8 = 7"
definition NB_RANK :: int where "NB_RANK = 8"

definition FILE_A :: int where "FILE_A = 0"
definition FILE_C :: int where "FILE_C = 2"
definition FILE_D :: int where "FILE_D = 3"
definition FILE_F :: int where "FILE_F = 5"
definition FILE_G :: int where "FILE_G = 6"
definition FILE_H :: int where "FILE_H = 7"
definition NB_FILE :: int where "NB_FILE = 8"

definition A8 :: int where "A8 = 56"
definition NB_SQUARE :: int where "NB_SQUARE = 64"

definition UP :: int where "UP = 8"
definition DOWN :: int where "DOWN = - 8"

lemmas enum_defs =
  WHITE_def BLACK_def NB_COLOR_def
  KNIGHT_def BISHOP_def ROOK_def QUEEN_def KING_def PAWN_def NB_PIECE_def
  RANK_1_def RANK_8_def NB_RANK_def
  FILE_A_def FILE_C_def FILE_D_def FILE_F_def FILE_G_def FILE_H_def NB_FILE_def
  A8_def NB_SQUARE_def UP_def DOWN_def

text \<open>
  The macro \<open>BOUNDS(v, ub)\<close> and the predicates \<open>color_ok\<close>, \<open>piece_ok\<close>,
  \<open>square_ok\<close> used in assertions are range checks \<open>0 \<le> v < ub\<close>.  An assertion
  is a precondition of the function that contains it: the functions below compute what
  the statements compute, and every theorem names the range conditions it needs.
\<close>

definition BOUNDS :: "int \<Rightarrow> int \<Rightarrow> bool" where
  "BOUNDS v ub \<longleftrightarrow> 0 \<le> v \<and> v < ub"

definition color_ok :: "int \<Rightarrow> bool" where
  "color_ok c \<longleftrightarrow> BOUNDS c NB_COLOR"

definition piece_ok :: "int \<Rightarrow> bool" where
  "piece_ok p \<longleftrightarrow> BOUNDS p NB_PIECE"

definition square_ok :: "int \<Rightarrow> bool" where
  "square_ok sq \<longleftrightarrow> BOUNDS sq NB_SQUARE"

text \<open>types.c, \<open>opposite\<close>: \<open>color ^ BLACK\<close>.\<close>

definition opposite :: "int \<Rightarrow> int" where
  "opposite color = color XOR BLACK"

text \<open>types.c, \<open>push_inc\<close>: the table \<open>{UP, DOWN}\<close> read at \<open>color\<close>.\<close>

definition push_inc :: "int \<Rightarrow> int" where
  "push_inc color = [UP, DOWN] ! nat color"

text \<open>
  types.c, \<open>square_from\<close>, \<open>rank_of\<close>, \<open>file_of\<close>.  C's \<open>/\<close> and \<open>%\<close> truncate
  towards zero: \<open>sdiv\<close> and \<open>smod\<close>.
\<close>

definition square_from :: "int \<Rightarrow> int \<Rightarrow> int" where
  "square_from rank file = NB_FILE * rank + file"

definition rank_of :: "int \<Rightarrow> int" where
  "rank_of square = square sdiv NB_FILE"

definition file_of :: "int \<Rightarrow> int" where
  "file_of square = square smod NB_FILE"

definition relative_rank :: "int \<Rightarrow> int \<Rightarrow> int" where
  "relative_rank color rank = rank XOR (7 * color)"

definition relative_rank_of :: "int \<Rightarrow> int \<Rightarrow> int" where
  "relative_rank_of color square = relative_rank color (rank_of square)"

section \<open>Bitboards and the Zobrist key service\<close>

text \<open>
  Modelled from the spec: \<open>bitboard.h\<close> is not part of the sources.  The spec calls
  its contents "low-level bit-set primitives"; \<open>play\<close> itself writes the mask of a
  square as \<open>1ULL << sq\<close>, and the primitives below are that mask with \<open>&\<close>,
  \<open>|\<close> and \<open>~\<close>.  \<open>bb::rank(r)\<close> is the set of the eight squares of rank \<open>r\<close>,
  \<open>bb::pop_lsb(b)\<close> returns the index of the lowest set bit of \<open>b\<close> and removes that
  bit from \<open>b\<close>.
\<close>

definition sq_mask :: "int \<Rightarrow> bitboard" where
  "sq_mask sq = push_bit (nat sq) 1"

definition bb_test :: "bitboard \<Rightarrow> int \<Rightarrow> bool" where
  "bb_test b sq \<longleftrightarrow> b AND sq_mask sq \<noteq> 0"

definition bb_set :: "bitboard \<Rightarrow> int \<Rightarrow> bitboard" where
  "bb_set b sq = b OR sq_mask sq"

definition bb_clear :: "bitboard \<Rightarrow> int \<Rightarrow> bitboard" where
  "bb_clear b sq = b AND NOT (sq_mask sq)"

definition bb_rank :: "int \<Rightarrow> bitboard" where
  "bb_rank r = push_bit (nat (8 * r)) 255"

definition lsb :: "bitboard \<Rightarrow> int" where
  "lsb b = int (length (takeWhile (\<lambda>n. \<not> bit b n) [0..<64]))"

definition pop_lsb :: "bitboard \<Rightarrow> int \<times> bitboard" where
  "pop_lsb b = (lsb b, b AND (b - 1))"

text \<open>
  Modelled from the spec: \<open>zobrist.h\<close> is not part of the sources.  The Zobrist key
  service is "a pure function of static tables": a fixed 64-bit value for every (side,
  piece kind, square), one for the side to move, one for an en-passant square and one for
  a castling-rights bit-set.  The tables are a parameter of every function that reads
  them.
\<close>

record zobrist =
  zkey :: "int \<Rightarrow> int \<Rightarrow> int \<Rightarrow> 64 word"
  zturn :: "64 word"
  zep :: "int \<Rightarrow> 64 word"
  zcastling :: "bitboard \<Rightarrow> 64 word"

section \<open>Position (position.cc)\<close>

text \<open>
  Modelled from the spec: \<open>position.h\<close> and \<open>move.h\<close> are not part of the
  sources.  The fields are the ones position.cc reads and writes and the data model of
  the spec lists; \<open>get_epsq()\<close> returns \<open>epSquare\<close>.  The counter \<open>rule50\<close> is an
  unbounded integer here.
\<close>

record Position =
  byColor :: "int \<Rightarrow> bitboard"
  byPiece :: "int \<Rightarrow> bitboard"
  castlableRooks :: bitboard
  key :: "64 word"
  turn :: int
  epSquare :: int
  rule50 :: int

record Move =
  fsq :: int
  tsq :: int
  prom :: int

text \<open>
  Modelled from the spec: \<open>opp_color\<close> and \<open>square\<close> are declared in a header that
  is not part of the sources; they are the names position.cc uses for what types.c
  defines as \<open>opposite\<close> and \<open>square_from\<close>.
\<close>

definition get_epsq :: "Position \<Rightarrow> int" where
  "get_epsq P = epSquare P"

definition opp_color :: "int \<Rightarrow> int" where
  "opp_color c = opposite c"

definition square :: "int \<Rightarrow> int \<Rightarrow> int" where
  "square r f = square_from r f"

definition occupied :: "Position \<Rightarrow> bitboard" where
  "occupied P = byColor P WHITE OR byColor P BLACK"

text \<open>\<open>Position::get(color, piece)\<close>.\<close>

definition get_bb :: "Position \<Rightarrow> int \<Rightarrow> int \<Rightarrow> bitboard" where
  "get_bb P color piece = byColor P color AND byPiece P piece"

definition get_RQ :: "Position \<Rightarrow> int \<Rightarrow> bitboard" where
  "get_RQ P color = byColor P color AND (byPiece P ROOK OR byPiece P QUEEN)"

definition get_BQ :: "Position \<Rightarrow> int \<Rightarrow> bitboard" where
  "get_BQ P color = byColor P color AND (byPiece P BISHOP OR byPiece P QUEEN)"

text \<open>
  \<open>Position::key_ok\<close>.  The innermost loop pops the lowest square of \<open>b\<close> until \<open>b\<close>
  is empty; the two outer loops run over the colours and the piece kinds.
\<close>

lemma pop_lsb_decreases: "b \<noteq> 0 \<Longrightarrow> unat (b AND (b - 1)) < unat (b :: bitboard)"
proof -
  assume nz: "b \<noteq> 0"
  have "b AND (b - 1) \<le> b - 1" by (rule word_and_le1)
  moreover from nz have "unat b \<noteq> 0" by (simp add: unat_eq_zero)
  with nz have "b - 1 < b" by (simp add: word_less_nat_alt unat_minus_one)
  ultimately have "b AND (b - 1) < b" by simp
  then show ?thesis by (simp add: word_less_nat_alt)
qed

function key_squares :: "zobrist \<Rightarrow> int \<Rightarrow> int \<Rightarrow> bitboard \<Rightarrow> 64 word \<Rightarrow> 64 word" where
  "key_squares Z color piece b k =
     (if b \<noteq> 0
      then key_squares Z color piece (snd (pop_lsb b)) (k XOR zkey Z color piece (fst (pop_lsb b)))
      else k)"
  by pat_completeness auto
termination
  by (relation "measure (\<lambda>(Z, color, piece, b, k). unat b)")
    (auto simp: pop_lsb_def pop_lsb_decreases)

declare key_squares.simps [simp del]

definition key_pieces :: "zobrist \<Rightarrow> Position \<Rightarrow> 64 word" where
  "key_pieces Z P =
     fold (\<lambda>color k.
       fold (\<lambda>piece k. key_squares Z color piece (get_bb P color piece) k)
         [0, 1, 2, 3, 4, 5] k)
       [0, 1] 0"

definition key_recomputed :: "zobrist \<Rightarrow> Position \<Rightarrow> 64 word" where
  "key_recomputed Z P =
     (let k = key_pieces Z P
      in if turn P = BLACK then k XOR zturn Z else k)"

definition key_ok :: "zobrist \<Rightarrow> Position \<Rightarrow> bool" where
  "key_ok Z P \<longleftrightarrow> key_recomputed Z P = key P"

text \<open>\<open>Position::clear()\<close>: every byte of the object becomes zero.\<close>

definition clear_pos :: Position where
  "clear_pos = \<lparr> byColor = (\<lambda>_. 0), byPiece = (\<lambda>_. 0), castlableRooks = 0, key = 0,
     turn = 0, epSquare = 0, rule50 = 0 \<rparr>"

text \<open>\<open>Position::clear(color, piece, sq)\<close> and \<open>Position::set(color, piece, sq)\<close>.\<close>

definition clear_sq :: "zobrist \<Rightarrow> int \<Rightarrow> int \<Rightarrow> int \<Rightarrow> Position \<Rightarrow> Position" where
  "clear_sq Z color piece sq P =
     P\<lparr> byColor := (byColor P)(color := bb_clear (byColor P color) sq),
        byPiece := (byPiece P)(piece := bb_clear (byPiece P piece) sq),
        key := key P XOR zkey Z color piece sq \<rparr>"

definition set_sq :: "zobrist \<Rightarrow> int \<Rightarrow> int \<Rightarrow> int \<Rightarrow> Position \<Rightarrow> Position" where
  "set_sq Z color piece sq P =
     P\<lparr> byColor := (byColor P)(color := bb_set (byColor P color) sq),
        byPiece := (byPiece P)(piece := bb_set (byPiece P piece) sq),
        key := key P XOR zkey Z color piece sq \<rparr>"

text \<open>\<open>Position::color_on\<close> and \<open>Position::piece_on\<close> (both assert the square occupied).
  Where no piece kind has the square, \<open>piece_on\<close> reaches \<open>assert(false)\<close>; the model
  answers \<open>NB_PIECE\<close> there, the value \<open>play\<close> uses for "no piece".\<close>

definition color_on :: "Position \<Rightarrow> int \<Rightarrow> int" where
  "color_on P sq = (if bb_test (byColor P WHITE) sq then WHITE else BLACK)"

definition piece_on :: "Position \<Rightarrow> int \<Rightarrow> int" where
  "piece_on P sq =
     (if bb_test (byPiece P PAWN) sq then PAWN
      else case filter (\<lambda>piece. bb_test (byPiece P piece) sq) [0, 1, 2, 3, 4, 5] of
             piece # _ \<Rightarrow> piece
           | [] \<Rightarrow> NB_PIECE)"

text \<open>
  \<open>Position::play(before, m)\<close>.  The three blocks of the function are definitions of
  their own: the capture block (\<open>if (capture != NB_PIECE) {...}\<close>), the pawn block
  (\<open>if (piece == PAWN) {...}\<close>) and its \<open>else\<close> block.  \<open>play\<close> runs the statements
  in the order of the source on the copy \<open>P\<close> of \<open>before\<close>.  Its last statement,
  \<open>assert(key_ok())\<close>, is the postcondition \<open>key_ok\<close> above.
\<close>

definition play_capture :: "zobrist \<Rightarrow> Move \<Rightarrow> int \<Rightarrow> Position \<Rightarrow> Position" where
  "play_capture Z m capture P =
     (let P = P\<lparr>rule50 := 0\<rparr>;
          P = clear_sq Z (color_on P (tsq m)) capture (tsq m) P
      in if capture = ROOK
         then P\<lparr>castlableRooks := castlableRooks P AND NOT (sq_mask (tsq m))\<rparr>
         else P)"

definition play_pawn ::
  "zobrist \<Rightarrow> Position \<Rightarrow> Move \<Rightarrow> int \<Rightarrow> int \<Rightarrow> int \<Rightarrow> Position \<Rightarrow> Position" where
  "play_pawn Z before m us them piece P =
     (let push = push_inc us;
          P = P\<lparr>rule50 := 0\<rparr>;
          P = P\<lparr>epSquare := (if tsq m = fsq m + 2 * push then fsq m + push else NB_SQUARE)\<rparr>
      in if tsq m = get_epsq before
         then clear_sq Z them piece (tsq m - push) P
         else if rank_of (tsq m) = RANK_8 \<or> rank_of (tsq m) = RANK_1
         then (let P = clear_sq Z us piece (tsq m) P in set_sq Z us (prom m) (tsq m) P)
         else P)"

definition play_piece ::
  "zobrist \<Rightarrow> Position \<Rightarrow> Move \<Rightarrow> int \<Rightarrow> int \<Rightarrow> Position \<Rightarrow> Position" where
  "play_piece Z before m us piece P =
     (let P = P\<lparr>epSquare := NB_SQUARE\<rparr>
      in if piece = ROOK
         then P\<lparr>castlableRooks := castlableRooks P AND NOT (sq_mask (fsq m))\<rparr>
         else if piece = KING
         then (let P = P\<lparr>castlableRooks := castlableRooks P AND NOT (bb_rank (us * RANK_8))\<rparr>
               in if bb_test (byColor before us) (tsq m)
                  then (let r = rank_of (fsq m);
                            ksq = (if tsq m > fsq m then square r FILE_G else square r FILE_C);
                            rsq = (if tsq m > fsq m then square r FILE_F else square r FILE_D);
                            P = clear_sq Z us KING (tsq m) P;
                            P = set_sq Z us KING ksq P
                        in set_sq Z us ROOK rsq P)
                  else P)
         else P)"

definition play :: "zobrist \<Rightarrow> Position \<Rightarrow> Move \<Rightarrow> Position" where
  "play Z before m =
     (let P = before;
          P = P\<lparr>rule50 := rule50 P + 1\<rparr>;
          us = turn P;
          them = opp_color us;
          piece = piece_on P (fsq m);
          capture = (if bb_test (occupied P) (tsq m) then piece_on P (tsq m) else NB_PIECE);
          P = (if capture \<noteq> NB_PIECE then play_capture Z m capture P else P);
          P = clear_sq Z us piece (fsq m) P;
          P = set_sq Z us piece (tsq m) P;
          P = (if piece = PAWN then play_pawn Z before m us them piece P
               else play_piece Z before m us piece P);
          P = P\<lparr>turn := them\<rparr>;
          P = P\<lparr>key := key P XOR zturn Z\<rparr>;
          P = P\<lparr>key := key P XOR (zep Z (get_epsq before) XOR zep Z (epSquare P))\<rparr>;
          P = P\<lparr>key := key P XOR zcastling Z (castlableRooks before XOR castlableRooks P)\<rparr>
      in P)"

text \<open>
  \<open>Position::set_pos(fen)\<close>.  Characters are compared by their codes, as in the "C"
  locale.  \<open>is >> s\<close> skips white space and reads up to the next white space; at the
  end of the input it leaves \<open>s\<close> as it was.

  Modelled from the spec: the table \<open>PieceLabel\<close> is declared in a header that is not
  part of the sources.  The description uses "letters as pieces with case denoting side";
  the index of a letter in its label is the piece kind.
\<close>

definition ord :: "char \<Rightarrow> int" where
  "ord c = of_char c"

definition isdigit :: "char \<Rightarrow> bool" where
  "isdigit c \<longleftrightarrow> ord (CHR ''0'') \<le> ord c \<and> ord c \<le> ord (CHR ''9'')"

definition isupper :: "char \<Rightarrow> bool" where
  "isupper c \<longleftrightarrow> ord (CHR ''A'') \<le> ord c \<and> ord c \<le> ord (CHR ''Z'')"

definition toupper :: "char \<Rightarrow> int" where
  "toupper c =
     (if ord (CHR ''a'') \<le> ord c \<and> ord c \<le> ord (CHR ''z'') then ord c - 32 else ord c)"

definition isspace :: "char \<Rightarrow> bool" where
  "isspace c \<longleftrightarrow> ord c = 32 \<or> (9 \<le> ord c \<and> ord c \<le> 13)"

definition PieceLabel :: "int \<Rightarrow> string" where
  "PieceLabel color = [''NBRQKP'', ''nbrqkp''] ! nat color"

text \<open>\<open>std::string::find(c)\<close> converted to \<open>int\<close>: the index of the first
  occurrence, or \<open>npos\<close>, which becomes \<open>-1\<close>.\<close>

fun label_find :: "string \<Rightarrow> char \<Rightarrow> int" where
  "label_find [] c = - 1"
| "label_find (x # xs) c =
     (if x = c then 0 else (let i = label_find xs c in if i < 0 then i else i + 1))"

definition next_token :: "string \<Rightarrow> string \<Rightarrow> string \<times> string" where
  "next_token s input =
     (let rest = dropWhile isspace input
      in if rest = [] then (s, [])
         else (takeWhile (\<lambda>c. \<not> isspace c) rest, dropWhile (\<lambda>c. \<not> isspace c) rest))"

text \<open>One round of the loop over the placement field.\<close>

definition place_piece :: "zobrist \<Rightarrow> char \<Rightarrow> int \<Rightarrow> int \<times> Position \<Rightarrow> int \<times> Position" where
  "place_piece Z c color sP =
     (let piece = label_find (PieceLabel color) c
      in if piece_ok piece then (fst sP + 1, set_sq Z color piece (fst sP) (snd sP)) else sP)"

definition place_char :: "zobrist \<Rightarrow> char \<Rightarrow> int \<times> Position \<Rightarrow> int \<times> Position" where
  "place_char Z c sP =
     (if isdigit c then (fst sP + (ord c - ord (CHR ''0'')), snd sP)
      else if c = CHR ''/'' then (fst sP - 16, snd sP)
      else fold (place_piece Z c) [0, 1] sP)"

text \<open>One round of the loop over the castling field, on \<open>sq\<close> and \<open>castlableRooks\<close>.\<close>

definition castle_char :: "char \<Rightarrow> int \<times> bitboard \<Rightarrow> int \<times> bitboard" where
  "castle_char c0 sb =
     (let color = (if isupper c0 then WHITE else BLACK);
          r = RANK_8 * color;
          c = toupper c0;
          sq = (if c = ord (CHR ''K'') then square r FILE_H
                else if c = ord (CHR ''Q'') then square r FILE_A
                else if ord (CHR ''A'') \<le> c \<and> c \<le> ord (CHR ''H'') then square r (c - ord (CHR ''A''))
                else fst sb)
      in (sq, bb_set (snd sb) sq))"

text \<open>\<open>s[i]\<close>: the character code, and the terminating zero at \<open>i = size\<close>.\<close>

definition char_at :: "string \<Rightarrow> nat \<Rightarrow> int" where
  "char_at s i = (if i < length s then ord (s ! i) else 0)"

text \<open>\<open>is >> rule50\<close>: white space, an optional sign, decimal digits; zero where no
  number can be read.  The value is not cut to the range of the counter's type.\<close>

fun digits_val :: "string \<Rightarrow> int \<Rightarrow> int" where
  "digits_val [] acc = acc"
| "digits_val (c # cs) acc =
     (if isdigit c then digits_val cs (10 * acc + (ord c - ord (CHR ''0''))) else acc)"

definition read_int :: "string \<Rightarrow> int" where
  "read_int input =
     (case dropWhile isspace input of
        [] \<Rightarrow> 0
      | c # cs \<Rightarrow>
          if c = CHR ''-'' then - digits_val cs 0
          else if c = CHR ''+'' then digits_val cs 0
          else digits_val (c # cs) 0)"

definition set_pos :: "zobrist \<Rightarrow> string \<Rightarrow> Position" where
  "set_pos Z fen =
     (let P = clear_pos;
          (s, is) = next_token [] fen;
          (sq, P) = fold (place_char Z) s (A8, P);
          (s, is) = next_token s is;
          P = (if s = ''w'' then P\<lparr>turn := WHITE\<rparr>
               else P\<lparr>turn := BLACK, key := key P XOR zturn Z\<rparr>);
          (s, is) = next_token s is;
          (sq, cr) = fold castle_char s (sq, castlableRooks P);
          P = P\<lparr>castlableRooks := cr\<rparr>;
          (s, is) = next_token s is;
          P = P\<lparr>epSquare :=
                (if s \<noteq> ''-''
                 then square (char_at s 1 - ord (CHR ''1'')) (char_at s 0 - ord (CHR ''a''))
                 else NB_SQUARE)\<rparr>;
          P = P\<lparr>rule50 := read_int is\<rparr>
      in P)"

text \<open>
  \<open>play\<close> on objects in memory.  \<open>child.play(parent, m)\<close> writes the object
  \<open>this\<close> and reads the object \<open>before\<close> through a reference; the store maps the
  address of each Position object to its value.  Every statement of the source is one
  step on the store: an assignment to a field of \<open>*this\<close> rewrites the store at
  \<open>this\<close>, and every \<open>before.\<close> read looks \<open>before\<close> up in the store as it is at
  that statement.
\<close>

type_synonym store = "nat \<Rightarrow> Position"

definition modify :: "nat \<Rightarrow> (Position \<Rightarrow> Position) \<Rightarrow> store \<Rightarrow> store" where
  "modify a f h = h(a := f (h a))"

definition play_store :: "zobrist \<Rightarrow> nat \<Rightarrow> nat \<Rightarrow> Move \<Rightarrow> store \<Rightarrow> store" where
  "play_store Z this before m h =
     (let h = h(this := h before);
          h = modify this (\<lambda>P. P\<lparr>rule50 := rule50 P + 1\<rparr>) h;
          us = turn (h this);
          them = opp_color us;
          piece = piece_on (h this) (fsq m);
          capture = (if bb_test (occupied (h this)) (tsq m) then piece_on (h this) (tsq m)
                     else NB_PIECE);
          h = (if capture \<noteq> NB_PIECE then modify this (play_capture Z m capture) h else h);
          h = modify this (clear_sq Z us piece (fsq m)) h;
          h = modify this (set_sq Z us piece (tsq m)) h;
          h = (if piece = PAWN
               then (let push = push_inc us;
                         h = modify this (\<lambda>P. P\<lparr>rule50 := 0\<rparr>) h;
                         h = modify this (\<lambda>P. P\<lparr>epSquare :=
                               (if tsq m = fsq m + 2 * push then fsq m + push else NB_SQUARE)\<rparr>) h
                     in if tsq m = get_epsq (h before)
                        then modify this (clear_sq Z them piece (tsq m - push)) h
                        else if rank_of (tsq m) = RANK_8 \<or> rank_of (tsq m) = RANK_1
                        then (let h = modify this (clear_sq Z us piece (tsq m)) h
                              in modify this (set_sq Z us (prom m) (tsq m)) h)
                        else h)
               else (let h = modify this (\<lambda>P. P\<lparr>epSquare := NB_SQUARE\<rparr>) h
                     in if piece = ROOK
                        then modify this (\<lambda>P. P\<lparr>castlableRooks :=
                               castlableRooks P AND NOT (sq_mask (fsq m))\<rparr>) h
                        else if piece = KING
                        then (let h = modify this (\<lambda>P. P\<lparr>castlableRooks :=
                                        castlableRooks P AND NOT (bb_rank (us * RANK_8))\<rparr>) h
                              in if bb_test (byColor (h before) us) (tsq m)
                                 then (let r = rank_of (fsq m);
                                           ksq = (if tsq m > fsq m then square r FILE_G
                                                  else square r FILE_C);
                                           rsq = (if tsq m > fsq m then square r FILE_F
                                                  else square r FILE_D);
                                           h = modify this (clear_sq Z us KING (tsq m)) h;
                                           h = modify this (set_sq Z us KING ksq) h
                                       in modify this (set_sq Z us ROOK rsq) h)
                                 else h)
                        else h));
          h = modify this (\<lambda>P. P\<lparr>turn := them\<rparr>) h;
          h = modify this (\<lambda>P. P\<lparr>key := key P XOR zturn Z\<rparr>) h;
          h = modify this (\<lambda>P. P\<lparr>key := key P
                XOR (zep Z (get_epsq (h before)) XOR zep Z (epSquare P))\<rparr>) h;
          h = modify this (\<lambda>P. P\<lparr>key := key P
                XOR zcastling Z (castlableRooks (h before) XOR castlableRooks P)\<rparr>) h
      in h)"

section \<open>Consistent boards and admissible moves\<close>

text \<open>
  \<open>board_ok\<close>: the two colour sets are disjoint, the six piece-kind sets are pairwise
  disjoint, and the squares of the colour sets are the squares of the piece-kind sets.
\<close>

definition board_ok :: "Position \<Rightarrow> bool" where
  "board_ok P \<longleftrightarrow>
     byColor P WHITE AND byColor P BLACK = 0
     \<and> list_all (\<lambda>p. list_all (\<lambda>q. p = q \<or> byPiece P p AND byPiece P q = 0)
          [0, 1, 2, 3, 4, 5]) [0, 1, 2, 3, 4, 5]
     \<and> occupied P = fold (\<lambda>p b. b OR byPiece P p) [0, 1, 2, 3, 4, 5] 0"

text \<open>
  Move generation is outside the sources.  \<open>move_ok\<close> collects what every legal move
  has, and what \<open>play\<close> relies on: both squares are on the board and differ, the origin
  holds a piece of the side to move, the destination holds a piece of the same side only
  in the king-takes-rook encoding of castling (and then the squares where king and rook
  land are free, apart from these two pieces themselves), a pawn that moves to the
  en-passant square finds it empty with an enemy pawn behind it, and a pawn that reaches
  the first or last rank promotes to a knight, bishop, rook or queen.
\<close>

definition castle_ok :: "Position \<Rightarrow> Move \<Rightarrow> bool" where
  "castle_ok P m \<longleftrightarrow>
     (let r = rank_of (fsq m);
          ksq = (if tsq m > fsq m then square r FILE_G else square r FILE_C);
          rsq = (if tsq m > fsq m then square r FILE_F else square r FILE_D)
      in piece_on P (fsq m) = KING \<and> piece_on P (tsq m) = ROOK
         \<and> (ksq = fsq m \<or> ksq = tsq m \<or> \<not> bb_test (occupied P) ksq)
         \<and> (rsq = fsq m \<or> rsq = tsq m \<or> \<not> bb_test (occupied P) rsq))"

definition pawn_ok :: "Position \<Rightarrow> Move \<Rightarrow> bool" where
  "pawn_ok P m \<longleftrightarrow>
     (let us = turn P; them = opp_color us; push = push_inc us
      in if tsq m = epSquare P
         then \<not> bb_test (occupied P) (tsq m) \<and> square_ok (tsq m - push)
              \<and> bb_test (get_bb P them PAWN) (tsq m - push)
         else if rank_of (tsq m) = RANK_8 \<or> rank_of (tsq m) = RANK_1
         then prom m = KNIGHT \<or> prom m = BISHOP \<or> prom m = ROOK \<or> prom m = QUEEN
         else True)"

definition move_ok :: "Position \<Rightarrow> Move \<Rightarrow> bool" where
  "move_ok P m \<longleftrightarrow>
     color_ok (turn P) \<and> square_ok (fsq m) \<and> square_ok (tsq m) \<and> fsq m \<noteq> tsq m
     \<and> bb_test (byColor P (turn P)) (fsq m)
     \<and> (if bb_test (byColor P (turn P)) (tsq m) then castle_ok P m else True)
     \<and> (if piece_on P (fsq m) = PAWN then pawn_ok P m else True)"

text \<open>
  A well-formed description, as the external interface of the specification words it:
  white-space separated fields; the placement has eight ranks separated by \<open>/\<close>, each
  rank filling exactly eight files with piece letters and digits for runs of empty
  squares; the side to move is \<open>w\<close> or \<open>b\<close>; the castling field is \<open>-\<close> or
  letters (king/queen side or a file, case for the side); the en-passant field is \<open>-\<close>
  or a square; the counter is a decimal number.  \<open>wf_rows r k\<close> reads the rest of the
  placement when \<open>k\<close> files of rank \<open>r\<close> (counted from 0) are filled.
\<close>

fun wf_rows :: "nat \<Rightarrow> nat \<Rightarrow> string \<Rightarrow> bool" where
  "wf_rows r k [] \<longleftrightarrow> r = 0 \<and> k = 8"
| "wf_rows r k (c # cs) \<longleftrightarrow>
     (if c = CHR ''/'' then k = 8 \<and> 0 < r \<and> wf_rows (r - 1) 0 cs
      else if c \<in> set ''12345678''
      then k + nat (ord c - ord (CHR ''0'')) \<le> 8 \<and> wf_rows r (k + nat (ord c - ord (CHR ''0''))) cs
      else if c \<in> set ''NBRQKPnbrqkp'' then k < 8 \<and> wf_rows r (Suc k) cs
      else False)"

definition wf_placement :: "string \<Rightarrow> bool" where
  "wf_placement s \<longleftrightarrow> wf_rows 7 0 s"

definition wf_castling :: "string \<Rightarrow> bool" where
  "wf_castling s \<longleftrightarrow>
     s = ''-'' \<or> (s \<noteq> [] \<and> list_all (\<lambda>c. c \<in> set ''KQkqABCDEFGHabcdefgh'') s)"

definition wf_ep :: "string \<Rightarrow> bool" where
  "wf_ep s \<longleftrightarrow>
     s = ''-'' \<or> (length s = 2 \<and> s ! 0 \<in> set ''abcdefgh'' \<and> s ! 1 \<in> set ''12345678'')"

definition wf_fen :: "string \<Rightarrow> bool" where
  "wf_fen fen \<longleftrightarrow>
     (let (placement, rest) = next_token [] fen;
          (side, rest) = next_token [] rest;
          (castling, rest) = next_token [] rest;
          (ep, rest) = next_token [] rest;
          (counter, rest) = next_token [] rest
      in wf_placement placement \<and> (side = ''w'' \<or> side = ''b'') \<and> wf_castling castling
         \<and> wf_ep ep \<and> counter \<noteq> [] \<and> list_all isdigit counter)"

text \<open>The positions a game can reach: \<open>set_pos\<close> on a well-formed description, then
  \<open>play\<close> with admissible moves.\<close>

inductive reachable :: "zobrist \<Rightarrow> Position \<Rightarrow> bool" for Z :: zobrist where
  start: "wf_fen fen \<Longrightarrow> reachable Z (set_pos Z fen)"
| step: "reachable Z P \<Longrightarrow> move_ok P m \<Longrightarrow> reachable Z (play Z P m)"

text \<open>
  The from-scratch fingerprint that the data model of the specification describes: the
  recomputation of \<open>key_ok\<close> (pieces and side to move) together with the en-passant term
  and the castling-rights term.
\<close>

definition full_key :: "zobrist \<Rightarrow> Position \<Rightarrow> 64 word" where
  "full_key Z P = key_recomputed Z P XOR zep Z (epSquare P) XOR zcastling Z (castlableRooks P)"

text \<open>
  The board a position stands for: for every square, the colour and kind of the piece on
  it, if any.  \<open>rep B P\<close> says that the bit-sets of \<open>P\<close> hold exactly the pieces of
  \<open>B\<close>; \<open>play_abs\<close> is the move of \<open>play\<close> on such a board (origin emptied,
  destination taken, en-passant victim removed, promotion, castling).
\<close>

definition rep :: "(nat \<Rightarrow> (int \<times> int) option) \<Rightarrow> Position \<Rightarrow> bool" where
  "rep B P \<longleftrightarrow>
     (\<forall>n c p. B n = Some (c, p) \<longrightarrow> color_ok c \<and> piece_ok p \<and> n < 64)
     \<and> (\<forall>c n. color_ok c \<longrightarrow> bit (byColor P c) n = (\<exists>p. B n = Some (c, p)))
     \<and> (\<forall>p n. piece_ok p \<longrightarrow> bit (byPiece P p) n = (\<exists>c. B n = Some (c, p)))"

definition play_abs ::
  "(nat \<Rightarrow> (int \<times> int) option) \<Rightarrow> Position \<Rightarrow> Move \<Rightarrow> (nat \<Rightarrow> (int \<times> int) option)" where
  "play_abs B P m =
     (let f = nat (fsq m); t = nat (tsq m); us = turn P; piece = piece_on P (fsq m);
          B1 = B(f := None, t \<mapsto> (us, piece));
          r = rank_of (fsq m);
          ksq = (if tsq m > fsq m then square r FILE_G else square r FILE_C);
          rsq = (if tsq m > fsq m then square r FILE_F else square r FILE_D)
      in if piece = PAWN
         then (if tsq m = epSquare P then B1(nat (tsq m - push_inc us) := None)
               else if rank_of (tsq m) = RANK_8 \<or> rank_of (tsq m) = RANK_1
               then B1(t \<mapsto> (us, prom m))
               else B1)
         else if piece = KING \<and> bb_test (byColor P us) (tsq m)
         then B(f := None, t := None, nat ksq \<mapsto> (us, KING), nat rsq \<mapsto> (us, ROOK))
         else B1)"

text \<open>
  \<open>key_bits\<close> is what the innermost loop of \<open>key_ok\<close> adds for one colour and piece
  kind: the keys of the squares in the bit-set.  \<open>key_diff\<close> is the distance between the
  stored key and the keys of the pieces on the board; \<open>repk\<close> joins it to \<open>rep\<close>.
\<close>

definition key_bits :: "zobrist \<Rightarrow> int \<Rightarrow> int \<Rightarrow> bitboard \<Rightarrow> 64 word" where
  "key_bits Z color piece b =
     fold (\<lambda>n k. if bit b n then k XOR zkey Z color piece (int n) else k) [0..<64] 0"

definition key_diff :: "zobrist \<Rightarrow> Position \<Rightarrow> 64 word" where
  "key_diff Z P = key P XOR key_pieces Z P"

definition repk :: "zobrist \<Rightarrow> 64 word \<Rightarrow> (nat \<Rightarrow> (int \<times> int) option) \<Rightarrow> Position \<Rightarrow> bool" where
  "repk Z d B P \<longleftrightarrow> rep B P \<and> key_diff Z P = d"

section \<open>Sample data\<close>

text \<open>
  A concrete Zobrist service and a concrete position, for the places where a statement is
  instantiated.  The position, which \<open>sample_fen\<close> describes: white king e1, rooks a1 and h1, pawn e2; black king e8,
  rook a8; white to move, the three rooks castlable, no en-passant square, three
  reversible moves played.
\<close>

definition sample_zobrist :: zobrist where
  "sample_zobrist =
     \<lparr> zkey = (\<lambda>c p s. word_of_int (1 + s + 64 * (p + 6 * c)) * 0x9E3779B97F4A7C15),
       zturn = 0xF0E1D2C3B4A59687,
       zep = (\<lambda>s. if s = 64 then 0 else word_of_int (1 + s) * 0xC2B2AE3D27D4EB4F),
       zcastling = (\<lambda>b. b XOR push_bit 13 b) \<rparr>"

definition sample_pos :: Position where
  "sample_pos =
     \<lparr> byColor = (\<lambda>c. if c = 0 then 4241 else if c = 1 then 1224979098644774912 else 0),
       byPiece = (\<lambda>p. if p = 2 then 72057594037928065
                       else if p = 4 then 1152921504606846992
                       else if p = 5 then 4096 else 0),
       castlableRooks = 72057594037928065, key = 0, turn = 0, epSquare = 64, rule50 = 3 \<rparr>"

definition sample_fen :: string where
  "sample_fen = ''r3k3/8/8/8/8/8/4P3/R3K2R w KQq - 3 1''"

definition e2e4 :: Move where "e2e4 = \<lparr> fsq = 12, tsq = 28, prom = 6 \<rparr>"
definition e1h1 :: Move where "e1h1 = \<lparr> fsq = 4, tsq = 7, prom = 6 \<rparr>"
definition a1a8 :: Move where "a1a8 = \<lparr> fsq = 0, tsq = 56, prom = 6 \<rparr>"
definition e1d1 :: Move where "e1d1 = \<lparr> fsq = 4, tsq = 3, prom = 6 \<rparr>"

text \<open>
  A second position, with black to move: white king e1; black king e8, rooks a8 and h8,
  both castlable.
\<close>

definition sample_pos_black :: Position where
  "sample_pos_black =
     \<lparr> byColor = (\<lambda>c. if c = 0 then 16 else if c = 1 then 10448351135499550720 else 0),
       byPiece = (\<lambda>p. if p = 2 then 9295429630892703744
                       else if p = 4 then 1152921504606846992 else 0),
       castlableRooks = 9295429630892703744, key = 0, turn = 1, epSquare = 64, rule50 = 0 \<rparr>"

definition e8h8 :: Move where "e8h8 = \<lparr> fsq = 60, tsq = 63, prom = 6 \<rparr>"
definition e8a8 :: Move where "e8a8 = \<lparr> fsq = 60, tsq = 56, prom = 6 \<rparr>"

section \<open>Coordinate round trip\<close>

lemma rank_of_nonneg: "0 \<le> sq \<Longrightarrow> rank_of sq = sq div 8"
  by (simp add: rank_of_def NB_FILE_def signed_divide_int_def sgn_if)

lemma file_of_nonneg: "0 \<le> sq \<Longrightarrow> file_of sq = sq mod 8"
  by (simp add: file_of_def NB_FILE_def signed_modulo_int_def sgn_if)

text \<open>
  C10.  For every rank and file inside the board (the \<open>BOUNDS\<close> assertions of
  \<open>square_from\<close>), \<open>square_from\<close> is \<open>8 * rank + file\<close>, a square that passes the
  \<open>BOUNDS\<close> assertion of \<open>rank_of\<close> and \<open>file_of\<close>, and these two give the rank
  and the file back.
\<close>

theorem square_from_round_trip:
  assumes "BOUNDS r NB_RANK" and "BOUNDS f NB_FILE"
  shows "rank_of (square_from r f) = r \<and> file_of (square_from r f) = f
    \<and> square_from r f = 8 * r + f
    \<and> 0 \<le> square_from r f \<and> square_from r f < 64
    \<and> BOUNDS (square_from r f) NB_SQUARE"
proof -
  from assms have r: "0 \<le> r" "r < 8" and f: "0 \<le> f" "f < 8"
    by (simp_all add: BOUNDS_def NB_RANK_def NB_FILE_def)
  have sq: "square_from r f = 8 * r + f"
    by (simp add: square_from_def NB_FILE_def)
  from r f have nn: "0 \<le> 8 * r + f" by simp
  from r f have "(8 * r + f) div 8 = r" by simp
  moreover from r f have "(8 * r + f) mod 8 = f" by simp
  ultimately show ?thesis
    using r f nn by (simp add: sq rank_of_nonneg file_of_nonneg BOUNDS_def NB_SQUARE_def)
qed

theorem square_from_round_trip_witness:
  "BOUNDS 3 NB_RANK \<and> BOUNDS 4 NB_FILE
    \<and> rank_of (square_from 3 4) = 3 \<and> file_of (square_from 3 4) = 4
    \<and> square_from 3 4 < 64"
proof -
  have r: "BOUNDS 3 NB_RANK" by (simp add: BOUNDS_def NB_RANK_def)
  have f: "BOUNDS 4 NB_FILE" by (simp add: BOUNDS_def NB_FILE_def)
  show ?thesis using r f square_from_round_trip [OF r f] by blast
qed

section \<open>Basic facts about bitboards and the mutators\<close>

lemma bit_sq_mask: "bit (sq_mask sq) n \<longleftrightarrow> n = nat sq \<and> n < 64"
  by (auto simp: sq_mask_def bit_simps)

lemma bb_test_iff: "bb_test b sq \<longleftrightarrow> bit b (nat sq)"
proof
  assume "bb_test b sq"
  then obtain n where "bit (b AND sq_mask sq) n"
    unfolding bb_test_def by (auto simp: bit_eq_iff)
  then show "bit b (nat sq)" by (auto simp: bit_and_iff bit_sq_mask)
next
  assume a: "bit b (nat sq)"
  then have "nat sq < 64" by (auto dest: bit_imp_le_length)
  with a have "bit (b AND sq_mask sq) (nat sq)" by (simp add: bit_and_iff bit_sq_mask)
  then show "bb_test b sq" unfolding bb_test_def by auto
qed

lemma bit_bb_set: "bit (bb_set b sq) n \<longleftrightarrow> bit b n \<or> (n = nat sq \<and> n < 64)"
  by (simp add: bb_set_def bit_or_iff bit_sq_mask)

lemma bit_bb_clear: "bit (bb_clear b sq) n \<longleftrightarrow> bit b n \<and> n \<noteq> nat sq"
  by (auto simp: bb_clear_def bit_and_iff bit_not_iff bit_sq_mask dest: bit_imp_le_length)

lemma clear_sq_fields [simp]:
  "castlableRooks (clear_sq Z c p sq P) = castlableRooks P"
  "turn (clear_sq Z c p sq P) = turn P"
  "epSquare (clear_sq Z c p sq P) = epSquare P"
  "rule50 (clear_sq Z c p sq P) = rule50 P"
  by (simp_all add: clear_sq_def)

lemma set_sq_fields [simp]:
  "castlableRooks (set_sq Z c p sq P) = castlableRooks P"
  "turn (set_sq Z c p sq P) = turn P"
  "epSquare (set_sq Z c p sq P) = epSquare P"
  "rule50 (set_sq Z c p sq P) = rule50 P"
  by (simp_all add: set_sq_def)

lemma rule50_update_reads [simp]:
  "piece_on (P\<lparr>rule50 := r\<rparr>) sq = piece_on P sq"
  "color_on (P\<lparr>rule50 := r\<rparr>) sq = color_on P sq"
  "occupied (P\<lparr>rule50 := r\<rparr>) = occupied P"
  by (simp_all add: piece_on_def color_on_def occupied_def)

lemma play_capture_fields [simp]:
  "castlableRooks (play_capture Z m capture P) =
     (if capture = ROOK then castlableRooks P AND NOT (sq_mask (tsq m)) else castlableRooks P)"
  "turn (play_capture Z m capture P) = turn P"
  "epSquare (play_capture Z m capture P) = epSquare P"
  "rule50 (play_capture Z m capture P) = 0"
  by (simp_all add: play_capture_def Let_def)

lemma play_pawn_fields [simp]:
  "castlableRooks (play_pawn Z before m us them piece P) = castlableRooks P"
  "turn (play_pawn Z before m us them piece P) = turn P"
  "epSquare (play_pawn Z before m us them piece P) =
     (if tsq m = fsq m + 2 * push_inc us then fsq m + push_inc us else NB_SQUARE)"
  "rule50 (play_pawn Z before m us them piece P) = 0"
  by (simp_all add: play_pawn_def Let_def)

lemma play_piece_fields [simp]:
  "castlableRooks (play_piece Z before m us piece P) =
     (if piece = ROOK then castlableRooks P AND NOT (sq_mask (fsq m))
      else if piece = KING then castlableRooks P AND NOT (bb_rank (us * RANK_8))
      else castlableRooks P)"
  "turn (play_piece Z before m us piece P) = turn P"
  "epSquare (play_piece Z before m us piece P) = NB_SQUARE"
  "rule50 (play_piece Z before m us piece P) = rule50 P"
  by (simp_all add: play_piece_def Let_def)

lemma play_castlableRooks_eq:
  "castlableRooks (play Z before m) =
     (let piece = piece_on before (fsq m);
          capture = (if bb_test (occupied before) (tsq m) then piece_on before (tsq m) else NB_PIECE);
          cr = (if capture \<noteq> NB_PIECE \<and> capture = ROOK
                then castlableRooks before AND NOT (sq_mask (tsq m)) else castlableRooks before)
      in if piece = PAWN then cr
         else if piece = ROOK then cr AND NOT (sq_mask (fsq m))
         else if piece = KING then cr AND NOT (bb_rank (turn before * RANK_8))
         else cr)"
  by (simp add: play_def Let_def)

lemma play_epSquare_eq:
  "epSquare (play Z before m) =
     (if piece_on before (fsq m) = PAWN \<and> tsq m = fsq m + 2 * push_inc (turn before)
      then fsq m + push_inc (turn before) else NB_SQUARE)"
  by (simp add: play_def Let_def)

lemma play_rule50_eq:
  "rule50 (play Z before m) =
     (if (bb_test (occupied before) (tsq m) \<and> piece_on before (tsq m) \<noteq> NB_PIECE)
         \<or> piece_on before (fsq m) = PAWN
      then 0 else rule50 before + 1)"
  by (simp add: play_def Let_def)

lemma play_turn_eq: "turn (play Z before m) = opp_color (turn before)"
  by (simp add: play_def Let_def)

section \<open>Boards behind the bit-sets\<close>

lemma piece_ok_set: "piece_ok p \<longleftrightarrow> p \<in> set [0, 1, 2, 3, 4, 5]"
  by (auto simp: piece_ok_def BOUNDS_def NB_PIECE_def)

lemma color_ok_iff: "color_ok c \<longleftrightarrow> c = 0 \<or> c = 1"
  by (auto simp: color_ok_def BOUNDS_def NB_COLOR_def)

lemma square_ok_iff: "square_ok sq \<longleftrightarrow> 0 \<le> sq \<and> sq < 64"
  by (simp add: square_ok_def BOUNDS_def NB_SQUARE_def)

lemma bit64: "bit (a :: bitboard) n \<Longrightarrow> n < 64"
  by (drule bit_imp_le_length) simp

lemma word_and_zero_bits: "(a :: bitboard) AND b = 0 \<longleftrightarrow> (\<forall>n. \<not> (bit a n \<and> bit b n))"
  by (auto simp: bit_eq_iff bit_and_iff dest: bit64)

lemma bit_fold_or:
  "bit (fold (\<lambda>p b. b OR f p) xs (a :: bitboard)) n \<longleftrightarrow> bit a n \<or> (\<exists>p\<in>set xs. bit (f p) n)"
  by (induction xs arbitrary: a) (auto simp: bit_or_iff)

lemma word_eq_bits: "(a :: bitboard) = b \<longleftrightarrow> (\<forall>n. bit a n = bit b n)"
  by (auto simp: bit_eq_iff dest: bit64)

lemma board_ok_bits:
  "board_ok P \<longleftrightarrow>
     (\<forall>n. \<not> (bit (byColor P 0) n \<and> bit (byColor P 1) n))
     \<and> (\<forall>n p q. piece_ok p \<longrightarrow> piece_ok q \<longrightarrow> p \<noteq> q \<longrightarrow> \<not> (bit (byPiece P p) n \<and> bit (byPiece P q) n))
     \<and> (\<forall>n. (bit (byColor P 0) n \<or> bit (byColor P 1) n) \<longleftrightarrow> (\<exists>p. piece_ok p \<and> bit (byPiece P p) n))"
  (is "?L \<longleftrightarrow> ?A \<and> ?B \<and> ?C")
proof -
  have a: "byColor P WHITE AND byColor P BLACK = 0 \<longleftrightarrow> ?A"
    by (simp add: word_and_zero_bits WHITE_def BLACK_def)
  have b: "list_all (\<lambda>p. list_all (\<lambda>q. p = q \<or> byPiece P p AND byPiece P q = 0)
          [0, 1, 2, 3, 4, 5]) [0, 1, 2, 3, 4, 5] \<longleftrightarrow> ?B"
    unfolding list_all_iff word_and_zero_bits piece_ok_set by blast
  have c: "occupied P = fold (\<lambda>p b. b OR byPiece P p) [0, 1, 2, 3, 4, 5] 0 \<longleftrightarrow> ?C"
    unfolding word_eq_bits bit_fold_or piece_ok_set occupied_def WHITE_def BLACK_def bit_or_iff
    by auto
  show ?thesis unfolding board_ok_def a b c ..
qed

lemma color_ok_01 [simp]: "color_ok 0" "color_ok 1" "color_ok WHITE" "color_ok BLACK"
  by (simp_all add: color_ok_iff WHITE_def BLACK_def)

lemma rep_board_ok:
  assumes "rep B P"
  shows "board_ok P"
  unfolding board_ok_bits
proof (intro conjI allI impI)
  fix n
  show "\<not> (bit (byColor P 0) n \<and> bit (byColor P 1) n)"
    using assms by (auto simp: rep_def)
next
  fix n p q
  assume "piece_ok p" "piece_ok q" "p \<noteq> q"
  then show "\<not> (bit (byPiece P p) n \<and> bit (byPiece P q) n)"
    using assms by (auto simp: rep_def)
next
  fix n
  have "(bit (byColor P 0) n \<or> bit (byColor P 1) n) \<longleftrightarrow> B n \<noteq> None"
    using assms unfolding rep_def by (metis color_ok_01(1,2) color_ok_iff not_Some_eq surj_pair)
  moreover have "(\<exists>p. piece_ok p \<and> bit (byPiece P p) n) \<longleftrightarrow> B n \<noteq> None"
    using assms unfolding rep_def by (metis not_Some_eq surj_pair)
  ultimately show "(bit (byColor P 0) n \<or> bit (byColor P 1) n) = (\<exists>p. piece_ok p \<and> bit (byPiece P p) n)"
    by simp
qed

lemma board_ok_rep:
  assumes "board_ok P"
  shows "\<exists>B. rep B P"
proof -
  define content where "content = (\<lambda>(P :: Position) n.
     (if bit (byColor P 0) n then Some (0 :: int, SOME p. piece_ok p \<and> bit (byPiece P p) n)
      else if bit (byColor P 1) n then Some (1, SOME p. piece_ok p \<and> bit (byPiece P p) n)
      else None))"
  from assms have A: "\<And>n. \<not> (bit (byColor P 0) n \<and> bit (byColor P 1) n)"
    and B: "\<And>n p q. piece_ok p \<Longrightarrow> piece_ok q \<Longrightarrow> p \<noteq> q \<Longrightarrow> \<not> (bit (byPiece P p) n \<and> bit (byPiece P q) n)"
    and C: "\<And>n. (bit (byColor P 0) n \<or> bit (byColor P 1) n) \<longleftrightarrow> (\<exists>p. piece_ok p \<and> bit (byPiece P p) n)"
    unfolding board_ok_bits by blast+
  have occ: "piece_ok (SOME p. piece_ok p \<and> bit (byPiece P p) n) \<and> bit (byPiece P (SOME p. piece_ok p \<and> bit (byPiece P p) n)) n"
    if "bit (byColor P 0) n \<or> bit (byColor P 1) n" for n
    using that C [of n] by (metis (mono_tags, lifting) someI_ex)
  have uniq: "(SOME p. piece_ok p \<and> bit (byPiece P p) n) = q"
    if "piece_ok q" "bit (byPiece P q) n" for n q
  proof -
    from that C [of n] have o: "bit (byColor P 0) n \<or> bit (byColor P 1) n" by blast
    from occ [OF o] that B show ?thesis by blast
  qed
  have r1: "color_ok c \<and> piece_ok p \<and> n < 64" if "content P n = Some (c, p)" for n c p
    using that occ [of n] by (auto simp: content_def split: if_splits dest: bit64)
  have r2: "bit (byColor P c) n = (\<exists>p. content P n = Some (c, p))" if "color_ok c" for c n
    using that A [of n] by (auto simp: content_def color_ok_iff)
  have r3: "bit (byPiece P p) n = (\<exists>c. content P n = Some (c, p))" if p: "piece_ok p" for p n
  proof
    assume b: "bit (byPiece P p) n"
    with p C [of n] have "bit (byColor P 0) n \<or> bit (byColor P 1) n" by blast
    then show "\<exists>c. content P n = Some (c, p)"
      using uniq [OF p b] by (auto simp: content_def)
  next
    assume "\<exists>c. content P n = Some (c, p)"
    then show "bit (byPiece P p) n"
      using occ [of n] by (auto simp: content_def split: if_splits)
  qed
  have "rep (content P) P"
    unfolding rep_def using r1 r2 r3 by blast
  then show ?thesis by blast
qed

lemma rep_field_updates [simp]:
  "rep B (P\<lparr>rule50 := r\<rparr>) = rep B P"
  "rep B (P\<lparr>castlableRooks := cr\<rparr>) = rep B P"
  "rep B (P\<lparr>epSquare := e\<rparr>) = rep B P"
  "rep B (P\<lparr>turn := t\<rparr>) = rep B P"
  "rep B (P\<lparr>key := k\<rparr>) = rep B P"
  by (simp_all add: rep_def)

lemma mutators_field_updates [simp]:
  "clear_sq Z c p sq (P\<lparr>rule50 := r\<rparr>) = (clear_sq Z c p sq P)\<lparr>rule50 := r\<rparr>"
  "clear_sq Z c p sq (P\<lparr>epSquare := e\<rparr>) = (clear_sq Z c p sq P)\<lparr>epSquare := e\<rparr>"
  "clear_sq Z c p sq (P\<lparr>castlableRooks := cr\<rparr>) = (clear_sq Z c p sq P)\<lparr>castlableRooks := cr\<rparr>"
  "set_sq Z c p sq (P\<lparr>rule50 := r\<rparr>) = (set_sq Z c p sq P)\<lparr>rule50 := r\<rparr>"
  "set_sq Z c p sq (P\<lparr>epSquare := e\<rparr>) = (set_sq Z c p sq P)\<lparr>epSquare := e\<rparr>"
  "set_sq Z c p sq (P\<lparr>castlableRooks := cr\<rparr>) = (set_sq Z c p sq P)\<lparr>castlableRooks := cr\<rparr>"
  by (simp_all add: clear_sq_def set_sq_def)

lemma rep_occupied: "rep B P \<Longrightarrow> bit (occupied P) n \<longleftrightarrow> B n \<noteq> None"
  unfolding rep_def occupied_def WHITE_def BLACK_def bit_or_iff
  by (metis color_ok_01(1,2) color_ok_iff not_Some_eq surj_pair)

lemma rep_not_occupied: "rep B P \<Longrightarrow> \<not> bb_test (occupied P) sq \<Longrightarrow> B (nat sq) = None"
  using rep_occupied [of B P "nat sq"] by (cases "B (nat sq)") (auto simp: bb_test_iff)

lemma rep_color_on:
  "rep B P \<Longrightarrow> B (nat sq) = Some (c, p) \<Longrightarrow> color_on P sq = c"
  by (auto simp: rep_def color_on_def bb_test_iff WHITE_def BLACK_def color_ok_iff)

lemma rep_piece_on:
  assumes "rep B P" "B (nat sq) = Some (c, p)"
  shows "piece_on P sq = p"
proof -
  from assms have p: "piece_ok p" by (auto simp: rep_def)
  have t: "bb_test (byPiece P q) sq \<longleftrightarrow> q = p" if "piece_ok q" for q
    using assms that by (auto simp: rep_def bb_test_iff)
  have f: "filter (\<lambda>piece. bb_test (byPiece P piece) sq) [0, 1, 2, 3, 4, 5] = [p]"
    using p t by (auto simp: piece_ok_set)
  show ?thesis
    unfolding piece_on_def f using t [of PAWN] p by (auto simp: piece_ok_set PAWN_def)
qed

lemma rep_piece_on_None:
  assumes "rep B P" "B (nat sq) = None"
  shows "piece_on P sq = NB_PIECE"
proof -
  have t: "\<not> bb_test (byPiece P q) sq" if "piece_ok q" for q
    using assms that by (auto simp: rep_def bb_test_iff)
  have f: "filter (\<lambda>piece. bb_test (byPiece P piece) sq) [0, 1, 2, 3, 4, 5] = []"
    using t by (auto simp: piece_ok_set)
  show ?thesis
    unfolding piece_on_def f using t [of PAWN] by (auto simp: piece_ok_set PAWN_def)
qed

lemma rep_clear:
  assumes "rep B P" "B (nat sq) = Some (c, p)"
  shows "rep (B(nat sq := None)) (clear_sq Z c p sq P)"
  using assms unfolding rep_def clear_sq_def
  by (auto simp: bit_bb_clear)

lemma rep_set:
  assumes "rep B P" "B (nat sq) = None" "square_ok sq" "color_ok c" "piece_ok p"
  shows "rep (B(nat sq \<mapsto> (c, p))) (set_sq Z c p sq P)"
  using assms unfolding rep_def set_sq_def
  by (auto simp: bit_bb_set square_ok_iff)

lemma square_ok_nat_eq: "square_ok a \<Longrightarrow> square_ok b \<Longrightarrow> nat a = nat b \<longleftrightarrow> a = b"
  by (auto simp: square_ok_iff)

lemma castle_squares:
  assumes "square_ok f"
  shows "square_ok (square (rank_of f) FILE_G)" "square_ok (square (rank_of f) FILE_C)"
    "square_ok (square (rank_of f) FILE_F)" "square_ok (square (rank_of f) FILE_D)"
    "square (rank_of f) FILE_G \<noteq> square (rank_of f) FILE_F"
    "square (rank_of f) FILE_C \<noteq> square (rank_of f) FILE_D"
proof -
  from assms have "0 \<le> f" "0 \<le> f div 8" "f div 8 \<le> 7"
    by (auto simp: square_ok_iff)
  then show "square_ok (square (rank_of f) FILE_G)" "square_ok (square (rank_of f) FILE_C)"
    "square_ok (square (rank_of f) FILE_F)" "square_ok (square (rank_of f) FILE_D)"
    "square (rank_of f) FILE_G \<noteq> square (rank_of f) FILE_F"
    "square (rank_of f) FILE_C \<noteq> square (rank_of f) FILE_D"
    by (simp_all add: square_ok_iff square_def square_from_def rank_of_nonneg enum_defs)
qed

section \<open>The key loop and the incremental key\<close>

lemma lsb_props:
  assumes "(b :: bitboard) \<noteq> 0"
  defines "l \<equiv> length (takeWhile (\<lambda>n. \<not> bit b n) [0..<64])"
  shows "l < 64" "bit b l" "\<And>n. n < l \<Longrightarrow> \<not> bit b n"
proof -
  let ?P = "\<lambda>n. \<not> bit b n"
  from assms(1) obtain k where k: "bit b k" by (auto simp: bit_eq_iff)
  then have k64: "k < 64" by (rule bit64)
  have le: "l \<le> 64" unfolding l_def using length_takeWhile_le [of ?P "[0..<64]"] by simp
  show l64: "l < 64"
  proof (rule ccontr)
    assume "\<not> l < 64"
    with le have "length (takeWhile ?P [0..<64]) = length [0..<64]" by (simp add: l_def)
    then have "takeWhile ?P [0..<64] = [0..<64]"
      by (metis takeWhile_eq_take take_all order_refl)
    then have "\<forall>x\<in>set [0..<64]. ?P x" by (simp only: takeWhile_eq_all_conv)
    with k k64 show False by simp
  qed
  from l64 have "\<not> ?P ([0..<64] ! l)"
    unfolding l_def by (intro nth_length_takeWhile) simp
  with l64 show "bit b l" by simp
  fix n assume n: "n < l"
  then have "takeWhile ?P [0..<64] ! n = [0..<64] ! n"
    unfolding l_def by (rule takeWhile_nth)
  moreover from n have "takeWhile ?P [0..<64] ! n \<in> set (takeWhile ?P [0..<64])"
    unfolding l_def by (rule nth_mem)
  ultimately have "?P ([0..<64] ! n)" by (auto dest: set_takeWhileD)
  with n l64 show "\<not> bit b n" by simp
qed

lemma bit_pop_lsb:
  assumes "b \<noteq> 0"
  shows "bit (snd (pop_lsb b)) n \<longleftrightarrow> bit b n \<and> n \<noteq> nat (fst (pop_lsb b))"
proof -
  define l where "l = length (takeWhile (\<lambda>n. \<not> bit b n) [0..<64])"
  from lsb_props [OF assms] have l64: "l < 64" and bl: "bit b l" and low: "\<And>n. n < l \<Longrightarrow> \<not> bit b n"
    by (simp_all add: l_def)
  define b' where "b' = unset_bit l b"
  have b'bits: "bit b' n \<longleftrightarrow> bit b n \<and> n \<noteq> l" for n
    by (auto simp: b'_def bit_unset_bit_iff)
  from bl have "b' = b - 2 ^ l" by (simp add: b'_def unset_bit_eq)
  then have "b - 1 = b' + mask l" by (simp add: mask_eq_exp_minus_1)
  also have "\<dots> = b' OR mask l"
  proof (rule disjunctive_add_eq_or)
    show "b' AND mask l = 0"
      by (rule bit_eqI) (auto simp: bit_and_iff bit_mask_iff b'bits low)
  qed
  finally have "bit (b AND (b - 1)) n \<longleftrightarrow> bit b n \<and> (bit b' n \<or> n < l)"
    by (auto simp: bit_and_iff bit_or_iff bit_mask_iff dest: bit64)
  also have "\<dots> \<longleftrightarrow> bit b n \<and> n \<noteq> l"
    using low [of n] by (auto simp: b'bits)
  finally show ?thesis by (simp add: pop_lsb_def lsb_def l_def)
qed

lemma fold_xor_acc:
  "fold (\<lambda>n k. if Q n then k XOR g n else k) xs (a :: 64 word)
     = a XOR fold (\<lambda>n k. if Q n then k XOR g n else k) xs 0"
proof (induction xs arbitrary: a)
  case Nil
  show ?case by simp
next
  case (Cons x xs)
  let ?f = "\<lambda>n k. if Q n then k XOR g n else k"
  show ?case
  proof (cases "Q x")
    case True
    have "fold ?f (x # xs) a = fold ?f xs (a XOR g x)" using True by simp
    also have "\<dots> = (a XOR g x) XOR fold ?f xs 0" by (rule Cons.IH)
    also have "\<dots> = a XOR (g x XOR fold ?f xs 0)" by (simp only: xor.assoc)
    also have "g x XOR fold ?f xs 0 = fold ?f xs (g x)" by (rule Cons.IH [symmetric])
    also have "fold ?f xs (g x) = fold ?f (x # xs) 0" using True by simp
    finally show ?thesis .
  next
    case False
    have "fold ?f (x # xs) a = fold ?f xs a" using False by simp
    also have "\<dots> = a XOR fold ?f xs 0" by (rule Cons.IH)
    also have "fold ?f xs 0 = fold ?f (x # xs) 0" using False by simp
    finally show ?thesis .
  qed
qed

lemma fold_xor_same:
  assumes "\<And>n. n \<in> set xs \<Longrightarrow> Q' n = Q n"
  shows "fold (\<lambda>n k. if Q' n then k XOR g n else k) xs (a :: 64 word)
     = fold (\<lambda>n k. if Q n then k XOR g n else k) xs a"
  using assms by (intro fold_cong) auto

lemma fold_xor_toggle:
  assumes "distinct xs" "m \<in> set xs" "\<And>n. n \<noteq> m \<Longrightarrow> Q' n = Q n" "Q' m \<noteq> Q m"
  shows "fold (\<lambda>n k. if Q' n then k XOR g n else k) xs (0 :: 64 word)
     = fold (\<lambda>n k. if Q n then k XOR g n else k) xs 0 XOR g m"
  using assms(1,2)
proof (induction xs)
  case Nil
  then show ?case by simp
next
  case (Cons x xs)
  show ?case
  proof (cases "x = m")
    case True
    with Cons.prems have "m \<notin> set xs" by simp
    then have "\<And>n. n \<in> set xs \<Longrightarrow> Q' n = Q n"
      using assms(3) by metis
    then have same: "fold (\<lambda>n k. if Q' n then k XOR g n else k) xs (0 :: 64 word)
        = fold (\<lambda>n k. if Q n then k XOR g n else k) xs 0"
      by (rule fold_xor_same)
    show ?thesis
      using True assms(4) same
        fold_xor_acc [of Q' g xs "g m"] fold_xor_acc [of Q g xs "g m"]
      by (auto simp: ac_simps)
  next
    case False
    with Cons.prems have "distinct xs" "m \<in> set xs" by auto
    from Cons.IH [OF this] False assms(3) [of x]
    show ?thesis
      using fold_xor_acc [of Q' g xs "g x"] fold_xor_acc [of Q g xs "g x"]
      by (auto simp: ac_simps)
  qed
qed

lemma key_bits_toggle:
  assumes "m < 64" "\<And>n. n \<noteq> m \<Longrightarrow> bit b' n = bit b n" "bit b' m \<noteq> bit b m"
  shows "key_bits Z c p b' = key_bits Z c p b XOR zkey Z c p (int m)"
  unfolding key_bits_def
  using assms by (intro fold_xor_toggle) auto

lemma key_bits_zero: "key_bits Z c p 0 = 0"
proof -
  have "fold (\<lambda>n k. if bit (0 :: bitboard) n then k XOR zkey Z c p (int n) else k) xs (0 :: 64 word) = 0" for xs
    by (induction xs) auto
  then show ?thesis by (simp add: key_bits_def)
qed

lemma key_squares_unfold0: "key_squares Z color piece 0 k = k"
  by (subst key_squares.simps) simp

lemma key_squares_unfold1:
  "b \<noteq> 0 \<Longrightarrow> key_squares Z color piece b k
     = key_squares Z color piece (snd (pop_lsb b)) (k XOR zkey Z color piece (fst (pop_lsb b)))"
  by (subst key_squares.simps) simp

lemma key_squares_eq: "key_squares Z color piece b k = k XOR key_bits Z color piece b"
proof (induction Z color piece b k rule: key_squares.induct)
  case (1 Z color piece b k)
  show ?case
  proof (cases "b = 0")
    case True
    then show ?thesis by (simp add: key_squares_unfold0 key_bits_zero)
  next
    case False
    define l where "l = nat (fst (pop_lsb b))"
    from lsb_props(1,2) [OF False] have l64: "l < 64" and bl: "bit b l"
      by (simp_all add: l_def pop_lsb_def lsb_def)
    have il: "fst (pop_lsb b) = int l" by (simp add: l_def pop_lsb_def lsb_def)
    have kb: "key_bits Z color piece (snd (pop_lsb b)) = key_bits Z color piece b XOR zkey Z color piece (int l)"
      using l64 bl by (intro key_bits_toggle) (auto simp: bit_pop_lsb [OF False] l_def)
    have "key_squares Z color piece b k
        = key_squares Z color piece (snd (pop_lsb b)) (k XOR zkey Z color piece (fst (pop_lsb b)))"
      using False by (rule key_squares_unfold1)
    also have "\<dots> = (k XOR zkey Z color piece (fst (pop_lsb b))) XOR key_bits Z color piece (snd (pop_lsb b))"
      using False by (rule 1)
    also have "\<dots> = k XOR key_bits Z color piece b"
      unfolding kb il by (simp add: ac_simps)
    finally show ?thesis .
  qed
qed

lemma key_pieces_expand:
  "key_pieces Z P =
     key_bits Z 0 0 (get_bb P 0 0) XOR key_bits Z 0 1 (get_bb P 0 1) XOR key_bits Z 0 2 (get_bb P 0 2)
     XOR key_bits Z 0 3 (get_bb P 0 3) XOR key_bits Z 0 4 (get_bb P 0 4) XOR key_bits Z 0 5 (get_bb P 0 5)
     XOR key_bits Z 1 0 (get_bb P 1 0) XOR key_bits Z 1 1 (get_bb P 1 1) XOR key_bits Z 1 2 (get_bb P 1 2)
     XOR key_bits Z 1 3 (get_bb P 1 3) XOR key_bits Z 1 4 (get_bb P 1 4) XOR key_bits Z 1 5 (get_bb P 1 5)"
  by (simp add: key_pieces_def key_squares_eq xor.assoc)

lemma key_pieces_toggle:
  assumes c: "color_ok c" and p: "piece_ok p"
    and same: "\<And>c' p'. color_ok c' \<Longrightarrow> piece_ok p' \<Longrightarrow> (c', p') \<noteq> (c, p)
        \<Longrightarrow> get_bb P' c' p' = get_bb P c' p'"
    and diff: "key_bits Z c p (get_bb P' c p) = key_bits Z c p (get_bb P c p) XOR z"
  shows "key_pieces Z P' = key_pieces Z P XOR z"
proof -
  have ok: "color_ok 0" "color_ok 1" "piece_ok 0" "piece_ok 1" "piece_ok 2" "piece_ok 3"
    "piece_ok 4" "piece_ok 5"
    by (simp_all add: piece_ok_set)
  from c p consider
      "c = 0 \<and> p = 0" | "c = 0 \<and> p = 1" | "c = 0 \<and> p = 2" | "c = 0 \<and> p = 3" | "c = 0 \<and> p = 4" | "c = 0 \<and> p = 5"
    | "c = 1 \<and> p = 0" | "c = 1 \<and> p = 1" | "c = 1 \<and> p = 2" | "c = 1 \<and> p = 3" | "c = 1 \<and> p = 4" | "c = 1 \<and> p = 5"
    by (auto simp: color_ok_iff piece_ok_set)
  then show ?thesis
  proof cases
    case 1 with same ok diff show ?thesis by (simp add: key_pieces_expand ac_simps)
  next
    case 2 with same ok diff show ?thesis by (simp add: key_pieces_expand ac_simps)
  next
    case 3 with same ok diff show ?thesis by (simp add: key_pieces_expand ac_simps)
  next
    case 4 with same ok diff show ?thesis by (simp add: key_pieces_expand ac_simps)
  next
    case 5 with same ok diff show ?thesis by (simp add: key_pieces_expand ac_simps)
  next
    case 6 with same ok diff show ?thesis by (simp add: key_pieces_expand ac_simps)
  next
    case 7 with same ok diff show ?thesis by (simp add: key_pieces_expand ac_simps)
  next
    case 8 with same ok diff show ?thesis by (simp add: key_pieces_expand ac_simps)
  next
    case 9 with same ok diff show ?thesis by (simp add: key_pieces_expand ac_simps)
  next
    case 10 with same ok diff show ?thesis by (simp add: key_pieces_expand ac_simps)
  next
    case 11 with same ok diff show ?thesis by (simp add: key_pieces_expand ac_simps)
  next
    case 12 with same ok diff show ?thesis by (simp add: key_pieces_expand ac_simps)
  qed
qed

lemma rep_get_bb:
  "rep B P \<Longrightarrow> color_ok c \<Longrightarrow> piece_ok p \<Longrightarrow> bit (get_bb P c p) n \<longleftrightarrow> B n = Some (c, p)"
  by (auto simp: rep_def get_bb_def bit_and_iff)

lemma key_pieces_board_change:
  assumes r: "rep B P" and r': "rep B' P'"
    and m: "m < 64" and sq: "\<And>n. n \<noteq> m \<Longrightarrow> B' n = B n"
    and c: "color_ok c" and p: "piece_ok p"
    and ch: "(B m = Some (c, p) \<and> B' m = None) \<or> (B m = None \<and> B' m = Some (c, p))"
  shows "key_pieces Z P' = key_pieces Z P XOR zkey Z c p (int m)"
proof (rule key_pieces_toggle [OF c p])
  fix c' p'
  assume ok: "color_ok c'" "piece_ok p'" and ne: "(c', p') \<noteq> (c, p)"
  have "bit (get_bb P' c' p') n = bit (get_bb P c' p') n" for n
    using sq [of n] ch ne by (cases "n = m") (auto simp: rep_get_bb [OF r ok] rep_get_bb [OF r' ok])
  then show "get_bb P' c' p' = get_bb P c' p'" by (simp add: word_eq_bits)
next
  show "key_bits Z c p (get_bb P' c p) = key_bits Z c p (get_bb P c p) XOR zkey Z c p (int m)"
  proof (rule key_bits_toggle [OF m])
    fix n assume "n \<noteq> m"
    then show "bit (get_bb P' c p) n = bit (get_bb P c p) n"
      using sq [of n] by (simp add: rep_get_bb [OF r c p] rep_get_bb [OF r' c p])
  next
    show "bit (get_bb P' c p) m \<noteq> bit (get_bb P c p) m"
      using ch by (auto simp: rep_get_bb [OF r c p] rep_get_bb [OF r' c p])
  qed
qed

lemma repk_clear:
  assumes "repk Z d B P" "B (nat sq) = Some (c, p)" "square_ok sq"
  shows "repk Z d (B(nat sq := None)) (clear_sq Z c p sq P)"
proof -
  from assms(1) have r: "rep B P" and k: "key_diff Z P = d" by (simp_all add: repk_def)
  from r assms(2) have r': "rep (B(nat sq := None)) (clear_sq Z c p sq P)" by (rule rep_clear)
  from r assms(2) have ok: "color_ok c" "piece_ok p" by (auto simp: rep_def)
  from assms(3) have m: "nat sq < 64" "int (nat sq) = sq" by (auto simp: square_ok_iff)
  have "key_pieces Z (clear_sq Z c p sq P) = key_pieces Z P XOR zkey Z c p (int (nat sq))"
    using r r' m(1) _ ok by (rule key_pieces_board_change) (auto simp: assms(2))
  then have "key_pieces Z (clear_sq Z c p sq P) = key_pieces Z P XOR zkey Z c p sq"
    unfolding m(2) .
  then have "key_diff Z (clear_sq Z c p sq P) = key_diff Z P"
    by (simp add: key_diff_def clear_sq_def ac_simps)
  with r' k show ?thesis by (simp add: repk_def)
qed

lemma repk_set:
  assumes "repk Z d B P" "B (nat sq) = None" "square_ok sq" "color_ok c" "piece_ok p"
  shows "repk Z d (B(nat sq \<mapsto> (c, p))) (set_sq Z c p sq P)"
proof -
  from assms(1) have r: "rep B P" and k: "key_diff Z P = d" by (simp_all add: repk_def)
  from r assms(2-5) have r': "rep (B(nat sq \<mapsto> (c, p))) (set_sq Z c p sq P)" by (rule rep_set)
  from assms(3) have m: "nat sq < 64" "int (nat sq) = sq" by (auto simp: square_ok_iff)
  have "key_pieces Z (set_sq Z c p sq P) = key_pieces Z P XOR zkey Z c p (int (nat sq))"
    using r r' m(1) _ assms(4,5) by (rule key_pieces_board_change) (auto simp: assms(2))
  then have "key_pieces Z (set_sq Z c p sq P) = key_pieces Z P XOR zkey Z c p sq"
    unfolding m(2) .
  then have "key_diff Z (set_sq Z c p sq P) = key_diff Z P"
    by (simp add: key_diff_def set_sq_def ac_simps)
  with r' k show ?thesis by (simp add: repk_def)
qed

lemma key_pieces_field_updates [simp]:
  "key_pieces Z (P\<lparr>rule50 := r\<rparr>) = key_pieces Z P"
  "key_pieces Z (P\<lparr>castlableRooks := cr\<rparr>) = key_pieces Z P"
  "key_pieces Z (P\<lparr>epSquare := e\<rparr>) = key_pieces Z P"
  "key_pieces Z (P\<lparr>turn := t\<rparr>) = key_pieces Z P"
  "key_pieces Z (P\<lparr>key := k\<rparr>) = key_pieces Z P"
  by (simp_all add: key_pieces_def get_bb_def)

lemma repk_field_updates [simp]:
  "repk Z d B (P\<lparr>rule50 := r\<rparr>) = repk Z d B P"
  "repk Z d B (P\<lparr>castlableRooks := cr\<rparr>) = repk Z d B P"
  "repk Z d B (P\<lparr>epSquare := e\<rparr>) = repk Z d B P"
  "repk Z d B (P\<lparr>turn := t\<rparr>) = repk Z d B P"
  by (simp_all add: repk_def key_diff_def)

section \<open>\<open>play\<close> on the board behind the bit-sets\<close>

lemma repk_play_capture:
  assumes rk: "repk Z d B P" and st: "square_ok (tsq m)"
  shows "repk Z d (B(nat (tsq m) := None))
     (let capture = (if bb_test (occupied P) (tsq m) then piece_on P (tsq m) else NB_PIECE)
      in if capture \<noteq> NB_PIECE then play_capture Z m capture P else P)"
proof (cases "B (nat (tsq m))")
  case None
  from rk have r: "rep B P" by (simp add: repk_def)
  from None have "B(nat (tsq m) := None) = B" by auto
  moreover from None r have "\<not> bb_test (occupied P) (tsq m)"
    by (simp add: bb_test_iff rep_occupied)
  ultimately show ?thesis using rk by simp
next
  case (Some cp)
  from rk have r: "rep B P" by (simp add: repk_def)
  obtain c p where cp: "cp = (c, p)" by (cases cp)
  from Some cp r have occ: "bb_test (occupied P) (tsq m)" by (simp add: bb_test_iff rep_occupied)
  from Some cp r have po: "piece_on P (tsq m) = p" and co: "color_on P (tsq m) = c"
    by (auto intro: rep_piece_on rep_color_on)
  from Some cp r have "piece_ok p" by (auto simp: rep_def)
  then have ne: "p \<noteq> NB_PIECE" by (auto simp: piece_ok_def BOUNDS_def)
  have "repk Z d (B(nat (tsq m) := None)) (clear_sq Z c p (tsq m) (P\<lparr>rule50 := 0\<rparr>))"
    using rk Some cp st by (intro repk_clear) simp_all
  then show ?thesis
    using occ po co ne by (auto simp: play_capture_def Let_def)
qed


lemma play_refines:
  assumes r: "rep B P" and mo: "move_ok P m"
  shows "rep (play_abs B P m) (play Z P m)"
    and "key_diff Z (play Z P m) =
      key_diff Z P XOR zturn Z XOR zep Z (epSquare P) XOR zep Z (epSquare (play Z P m))
        XOR zcastling Z (castlableRooks P XOR castlableRooks (play Z P m))"
proof -
  define d where "d = key_diff Z P"
  define f where "f = nat (fsq m)"
  define t where "t = nat (tsq m)"
  define us where "us = turn P"
  define them where "them = opp_color us"
  from mo have us: "color_ok us" and sf: "square_ok (fsq m)" and st: "square_ok (tsq m)"
    and ne: "fsq m \<noteq> tsq m" and own: "bb_test (byColor P us) (fsq m)"
    by (simp_all add: move_ok_def us_def)
  from sf st ne have ft: "f \<noteq> t" by (simp add: f_def t_def square_ok_nat_eq)
  from own us r obtain pc where Bf: "B f = Some (us, pc)"
    by (auto simp: rep_def bb_test_iff f_def)
  from r Bf have pc: "piece_on P (fsq m) = pc"
    unfolding f_def by (rule rep_piece_on)
  from r Bf have pc_ok: "piece_ok pc"
    by (auto simp: rep_def)
  define P1 where "P1 = P\<lparr>rule50 := rule50 P + 1\<rparr>"
  define P2 where "P2 =
     (let capture = (if bb_test (occupied P1) (tsq m) then piece_on P1 (tsq m) else NB_PIECE)
      in if capture \<noteq> NB_PIECE then play_capture Z m capture P1 else P1)"
  define P4 where "P4 = set_sq Z us pc (tsq m) (clear_sq Z us pc (fsq m) P2)"
  define B1 where "B1 = B(f := None, t \<mapsto> (us, pc))"
  from r have "repk Z d B P1" by (simp add: P1_def repk_def d_def key_diff_def)
  then have r2: "repk Z d (B(t := None)) P2"
    unfolding P2_def t_def using st by (rule repk_play_capture)
  from ft Bf have "(B(t := None)) (nat (fsq m)) = Some (us, pc)" by (simp add: f_def)
  with r2 have "repk Z d ((B(t := None))(nat (fsq m) := None)) (clear_sq Z us pc (fsq m) P2)"
    using sf by (intro repk_clear)
  then have "repk Z d (((B(t := None))(nat (fsq m) := None))(nat (tsq m) \<mapsto> (us, pc))) P4"
    unfolding P4_def using st us pc_ok by (intro repk_set) (simp_all add: t_def)
  moreover have "((B(t := None))(nat (fsq m) := None))(nat (tsq m) \<mapsto> (us, pc)) = B1"
    by (auto simp: B1_def f_def t_def)
  ultimately have r4: "repk Z d B1 P4" by simp
  have B1t: "B1 t = Some (us, pc)" and B1f: "B1 f = None"
    using ft by (simp_all add: B1_def)
  define S where "S = (if pc = PAWN then play_pawn Z P m us them pc P4
                        else play_piece Z P m us pc P4)"
  have fin: "play Z P m = S\<lparr>turn := them,
      key := ((key S XOR zturn Z) XOR (zep Z (epSquare P) XOR zep Z (epSquare S)))
               XOR zcastling Z (castlableRooks P XOR castlableRooks S)\<rparr>"
    by (simp add: play_def Let_def S_def P4_def P2_def P1_def us_def them_def pc get_epsq_def)
  have play_eq: "repk Z d B' S
     = repk Z d B' (if pc = PAWN then play_pawn Z P m us them pc P4 else play_piece Z P m us pc P4)" for B'
    by (simp add: S_def)
  have main: "repk Z d (play_abs B P m) S"
  proof (cases "pc = PAWN")
    case True
    with mo pc have po: "pawn_ok P m" by (simp add: move_ok_def)
    show ?thesis
    proof (cases "tsq m = epSquare P")
      case ep: True
      from po ep have e1: "\<not> bb_test (occupied P) (tsq m)"
        and e2: "square_ok (tsq m - push_inc us)"
        and e3: "bb_test (get_bb P them PAWN) (tsq m - push_inc us)"
        by (simp_all add: pawn_ok_def Let_def us_def them_def)
      define x where "x = nat (tsq m - push_inc us)"
      from us have them_ok: "color_ok them"
        by (auto simp: them_def opp_color_def opposite_def color_ok_iff BLACK_def)
      from us have them_ne: "them \<noteq> us"
        by (auto simp: them_def opp_color_def opposite_def color_ok_iff BLACK_def)
      from e3 r them_ok have Bx: "B x = Some (them, PAWN)"
        by (auto simp: get_bb_def bb_test_iff bit_and_iff rep_def x_def piece_ok_set PAWN_def)
      from r e1 have Bt: "B t = None" unfolding t_def by (rule rep_not_occupied)
      from Bx Bt Bf them_ne have xt: "x \<noteq> t" and xf: "x \<noteq> f" by auto
      then have "B1 (nat (tsq m - push_inc us)) = Some (them, PAWN)"
        using Bx by (simp add: B1_def x_def)
      with r4 have "repk Z d (B1(nat (tsq m - push_inc us) := None))
          (clear_sq Z them PAWN (tsq m - push_inc us) P4)"
        using e2 by (intro repk_clear)
      moreover have "play_abs B P m = B1(nat (tsq m - push_inc us) := None)"
        using True ep by (simp add: play_abs_def Let_def pc B1_def f_def t_def us_def)
      ultimately show ?thesis
        using True ep by (simp add: play_eq play_pawn_def Let_def get_epsq_def)
    next
      case nep: False
      show ?thesis
      proof (cases "rank_of (tsq m) = RANK_8 \<or> rank_of (tsq m) = RANK_1")
        case pr: True
        from po nep pr have "prom m = KNIGHT \<or> prom m = BISHOP \<or> prom m = ROOK \<or> prom m = QUEEN"
          by (simp add: pawn_ok_def Let_def)
        then have prom_ok: "piece_ok (prom m)" by (auto simp: piece_ok_set enum_defs)
        from r4 B1t True st have "repk Z d (B1(nat (tsq m) := None)) (clear_sq Z us PAWN (tsq m) P4)"
          by (intro repk_clear) (simp_all add: t_def)
        then have "repk Z d ((B1(nat (tsq m) := None))(nat (tsq m) \<mapsto> (us, prom m)))
            (set_sq Z us (prom m) (tsq m) (clear_sq Z us PAWN (tsq m) P4))"
          using st us prom_ok by (intro repk_set) simp_all
        moreover have "play_abs B P m = (B1(nat (tsq m) := None))(nat (tsq m) \<mapsto> (us, prom m))"
          using True nep pr by (simp add: play_abs_def Let_def pc B1_def f_def t_def us_def)
        ultimately show ?thesis
          using True nep pr by (simp add: play_eq play_pawn_def Let_def get_epsq_def)
      next
        case npr: False
        have "play_abs B P m = B1"
          using True nep npr by (simp add: play_abs_def Let_def pc B1_def f_def t_def us_def)
        then show ?thesis
          using True nep npr r4 by (simp add: play_eq play_pawn_def Let_def get_epsq_def)
      qed
    qed
  next
    case np: False
    show ?thesis
    proof (cases "pc = KING \<and> bb_test (byColor P us) (tsq m)")
      case cas: True
      then have king: "pc = KING" and own_t: "bb_test (byColor P us) (tsq m)" by simp_all
      from mo own_t have co: "castle_ok P m" by (simp add: move_ok_def us_def)
      define ksq where "ksq = (if tsq m > fsq m then square (rank_of (fsq m)) FILE_G
                                else square (rank_of (fsq m)) FILE_C)"
      define rsq where "rsq = (if tsq m > fsq m then square (rank_of (fsq m)) FILE_F
                                else square (rank_of (fsq m)) FILE_D)"
      from castle_squares [OF sf] have sk: "square_ok ksq" and sr: "square_ok rsq"
        and kr: "ksq \<noteq> rsq"
        by (auto simp: ksq_def rsq_def)
      from co have ck: "ksq = fsq m \<or> ksq = tsq m \<or> \<not> bb_test (occupied P) ksq"
        and cr: "rsq = fsq m \<or> rsq = tsq m \<or> \<not> bb_test (occupied P) rsq"
        by (simp_all add: castle_ok_def Let_def ksq_def rsq_def)
      define B5 where "B5 = B(f := None, t := None)"
      from ck r have k5: "B5 (nat ksq) = None"
        by (auto simp: B5_def f_def t_def dest: rep_not_occupied)
      from cr r have r5: "B5 (nat rsq) = None"
        by (auto simp: B5_def f_def t_def dest: rep_not_occupied)
      have KING_ok: "piece_ok KING" and ROOK_ok: "piece_ok ROOK"
        by (simp_all add: piece_ok_set enum_defs)
      from r4 B1t king st have "repk Z d (B1(nat (tsq m) := None)) (clear_sq Z us KING (tsq m) P4)"
        by (intro repk_clear) (simp_all add: t_def)
      moreover have "B1(nat (tsq m) := None) = B5"
        by (auto simp: B1_def B5_def t_def)
      ultimately have a: "repk Z d B5 (clear_sq Z us KING (tsq m) P4)" by simp
      from a k5 sk us KING_ok
      have b: "repk Z d (B5(nat ksq \<mapsto> (us, KING))) (set_sq Z us KING ksq (clear_sq Z us KING (tsq m) P4))"
        by (rule repk_set)
      from kr sk sr r5 have "(B5(nat ksq \<mapsto> (us, KING))) (nat rsq) = None"
        by (simp add: square_ok_nat_eq)
      from b this sr us ROOK_ok
      have c: "repk Z d (B5(nat ksq \<mapsto> (us, KING), nat rsq \<mapsto> (us, ROOK)))
          (set_sq Z us ROOK rsq (set_sq Z us KING ksq (clear_sq Z us KING (tsq m) P4)))"
        by (rule repk_set)
      have kp: "KING \<noteq> PAWN" "KING \<noteq> ROOK" by (simp_all add: enum_defs)
      have "play_abs B P m = B5(nat ksq \<mapsto> (us, KING), nat rsq \<mapsto> (us, ROOK))"
        using king own_t kp
        by (simp add: play_abs_def Let_def pc B5_def f_def t_def us_def ksq_def rsq_def)
      then show ?thesis
        using c king own_t kp
        by (simp add: play_eq play_piece_def Let_def ksq_def rsq_def)
    next
      case ncas: False
      have "play_abs B P m = B1"
        using np ncas by (auto simp: play_abs_def Let_def pc B1_def f_def t_def us_def)
      then show ?thesis
        using np ncas r4 by (auto simp: play_eq play_piece_def Let_def)
    qed
  qed
  then have rS: "rep (play_abs B P m) S" and kS: "key_diff Z S = d"
    by (simp_all add: repk_def)
  from rS show "rep (play_abs B P m) (play Z P m)"
    by (simp add: fin)
  have ep: "epSquare (play Z P m) = epSquare S"
    and cr: "castlableRooks (play Z P m) = castlableRooks S"
    by (simp_all add: fin)
  have "key_diff Z (play Z P m) =
      (((key S XOR zturn Z) XOR (zep Z (epSquare P) XOR zep Z (epSquare S)))
               XOR zcastling Z (castlableRooks P XOR castlableRooks S)) XOR key_pieces Z S"
    by (simp add: fin key_diff_def)
  also have "\<dots> = key_diff Z S XOR zturn Z XOR zep Z (epSquare P) XOR zep Z (epSquare S)
        XOR zcastling Z (castlableRooks P XOR castlableRooks S)"
    by (simp add: key_diff_def ac_simps)
  finally show "key_diff Z (play Z P m) =
      key_diff Z P XOR zturn Z XOR zep Z (epSquare P) XOR zep Z (epSquare (play Z P m))
        XOR zcastling Z (castlableRooks P XOR castlableRooks (play Z P m))"
    by (simp add: kS d_def ep cr)
qed


lemma board_ok_play:
  assumes "board_ok P" "move_ok P m"
  shows "board_ok (play Z P m)"
proof -
  from assms(1) obtain B where "rep B P" using board_ok_rep by blast
  then have "rep (play_abs B P m) (play Z P m)" using assms(2) by (rule play_refines)
  then show ?thesis by (rule rep_board_ok)
qed

section \<open>The sample position\<close>

lemma sample_bits [simp]:
  "byColor sample_pos 0 = 4241" "byColor sample_pos 1 = 1224979098644774912"
  "byPiece sample_pos 0 = 0" "byPiece sample_pos 1 = 0" "byPiece sample_pos 2 = 72057594037928065"
  "byPiece sample_pos 3 = 0" "byPiece sample_pos 4 = 1152921504606846992" "byPiece sample_pos 5 = 4096"
  "turn sample_pos = 0" "epSquare sample_pos = 64" "rule50 sample_pos = 3"
  "castlableRooks sample_pos = 72057594037928065"
  by (simp_all add: sample_pos_def)

lemma sample_board_ok: "board_ok sample_pos"
  by (simp add: board_ok_def occupied_def WHITE_def BLACK_def)

lemma bb_test_numeral:
  "bb_test b (numeral k) \<longleftrightarrow> bit b (numeral k)"
  "bb_test b 0 \<longleftrightarrow> bit b 0"
  by (simp_all add: bb_test_iff)

lemma sample_piece_on:
  "piece_on sample_pos 12 = PAWN" "piece_on sample_pos 4 = KING" "piece_on sample_pos 7 = ROOK"
  "piece_on sample_pos 0 = ROOK" "piece_on sample_pos 56 = ROOK"
  by (simp_all add: piece_on_def bb_test_numeral enum_defs)

lemma sample_e2e4_ok: "move_ok sample_pos e2e4"
  by (simp add: move_ok_def e2e4_def sample_piece_on pawn_ok_def color_ok_iff square_ok_iff
      bb_test_numeral Let_def push_inc_def opp_color_def opposite_def enum_defs rank_of_nonneg)

lemma sample_e1h1_ok: "move_ok sample_pos e1h1"
  by (simp add: move_ok_def e1h1_def sample_piece_on castle_ok_def color_ok_iff square_ok_iff
      bb_test_numeral Let_def square_def square_from_def occupied_def enum_defs rank_of_nonneg)


lemma sample_e1d1_ok: "move_ok sample_pos e1d1"
  by (simp add: move_ok_def e1d1_def sample_piece_on color_ok_iff square_ok_iff
      bb_test_numeral Let_def enum_defs)

lemma sample_black_bits [simp]:
  "byColor sample_pos_black 0 = 16" "byColor sample_pos_black 1 = 10448351135499550720"
  "byPiece sample_pos_black 0 = 0" "byPiece sample_pos_black 1 = 0"
  "byPiece sample_pos_black 2 = 9295429630892703744" "byPiece sample_pos_black 3 = 0"
  "byPiece sample_pos_black 4 = 1152921504606846992" "byPiece sample_pos_black 5 = 0"
  "turn sample_pos_black = 1" "epSquare sample_pos_black = 64"
  by (simp_all add: sample_pos_black_def)

lemma sample_black_board_ok: "board_ok sample_pos_black"
  by (simp add: board_ok_def occupied_def WHITE_def BLACK_def)

lemma sample_black_piece_on:
  "piece_on sample_pos_black 60 = KING" "piece_on sample_pos_black 63 = ROOK"
  "piece_on sample_pos_black 56 = ROOK"
  by (simp_all add: piece_on_def bb_test_numeral enum_defs)

lemma sample_e8h8_ok: "move_ok sample_pos_black e8h8"
  by (simp add: move_ok_def e8h8_def sample_black_piece_on castle_ok_def color_ok_iff
      square_ok_iff bb_test_numeral Let_def square_def square_from_def occupied_def enum_defs
      rank_of_nonneg)

lemma sample_e8a8_ok: "move_ok sample_pos_black e8a8"
  by (simp add: move_ok_def e8a8_def sample_black_piece_on castle_ok_def color_ok_iff
      square_ok_iff bb_test_numeral Let_def square_def square_from_def occupied_def enum_defs
      rank_of_nonneg)

section \<open>Castling rights, en-passant square and fifty-move counter after a move\<close>

text \<open>
  C5.  For every parent position and every move, the castling-rights set of the position
  that \<open>play\<close> produces is a subset of the parent's: intersecting it with the parent's
  set changes nothing, and adding it to the parent's set adds nothing.  \<open>play\<close> only
  removes bits (the captured rook's square, the moved rook's square, the king's whole
  back rank), as \<open>play_castlableRooks_eq\<close> lists.
\<close>

theorem play_castling_rights_only_removed:
  "castlableRooks (play Z before m) AND castlableRooks before = castlableRooks (play Z before m)
   \<and> castlableRooks (play Z before m) OR castlableRooks before = castlableRooks before"
  unfolding play_castlableRooks_eq Let_def
  by (auto simp: bit_eq_iff bit_and_iff bit_or_iff bit_not_iff)

theorem play_castling_rights_only_removed_witness:
  "castlableRooks (play sample_zobrist sample_pos a1a8) AND castlableRooks sample_pos
     = castlableRooks (play sample_zobrist sample_pos a1a8)
   \<and> castlableRooks (play sample_zobrist sample_pos a1a8) = 128"
  using play_castling_rights_only_removed [of sample_zobrist sample_pos a1a8]
  by (simp add: play_castlableRooks_eq sample_piece_on a1a8_def bb_test_numeral occupied_def
      sq_mask_def enum_defs)



text \<open>
  C8.  On a consistent board, the counter \<open>rule50\<close> after \<open>play\<close> is 0 if the
  destination square was occupied in the parent (a capture, which includes the
  king-takes-rook encoding of castling) or the moving piece is a pawn, and the parent's
  counter plus one in every other case.
\<close>

theorem play_rule50:
  assumes "board_ok before"
  shows "rule50 (play Z before m) =
      (if bb_test (occupied before) (tsq m) \<or> piece_on before (fsq m) = PAWN
       then 0 else rule50 before + 1)"
proof -
  from assms obtain B where r: "rep B before" using board_ok_rep by blast
  have "piece_on before (tsq m) \<noteq> NB_PIECE" if occ: "bb_test (occupied before) (tsq m)"
  proof -
    from occ r obtain c p where B: "B (nat (tsq m)) = Some (c, p)"
      by (auto simp: bb_test_iff rep_occupied)
    with r have "piece_on before (tsq m) = p" by (rule rep_piece_on)
    moreover from r B have "piece_ok p" by (auto simp: rep_def)
    ultimately show ?thesis by (auto simp: piece_ok_def BOUNDS_def)
  qed
  then show ?thesis unfolding play_rule50_eq by auto
qed

theorem play_rule50_witness:
  "board_ok sample_pos
   \<and> rule50 (play sample_zobrist sample_pos e1d1) = 4
   \<and> rule50 (play sample_zobrist sample_pos e2e4) = 0
   \<and> rule50 (play sample_zobrist sample_pos a1a8) = 0"
  using sample_board_ok play_rule50 [OF sample_board_ok, of sample_zobrist]
  by (simp add: sample_piece_on e1d1_def e2e4_def a1a8_def bb_test_numeral occupied_def enum_defs)

lemma opp_color_simps: "opp_color 0 = 1" "opp_color 1 = 0"
  by (simp_all add: opp_color_def opposite_def BLACK_def)

section \<open>Castling\<close>

lemma castle_squares_abs:
  assumes "square_ok f"
  shows "square (rank_of f) FILE_G = 8 * (f div 8) + 6" "square (rank_of f) FILE_C = 8 * (f div 8) + 2"
    "square (rank_of f) FILE_F = 8 * (f div 8) + 5" "square (rank_of f) FILE_D = 8 * (f div 8) + 3"
  using assms by (simp_all add: square_ok_iff square_def square_from_def rank_of_nonneg enum_defs)

text \<open>
  C6.  For an admissible move on a consistent board in which the moving piece is the king
  and the destination square holds a piece of the side to move (the castling encoding):
  after \<open>play\<close> the king of that side stands on square \<open>8 * (fsq div 8) + 6\<close> (file G
  of the rank of the king's origin) when the destination is greater than the origin and on
  \<open>8 * (fsq div 8) + 2\<close> (file C) otherwise, the rook on \<open>8 * (fsq div 8) + 5\<close> (file F)
  or \<open>8 * (fsq div 8) + 3\<close> (file D).  The squares are given by plain arithmetic on the
  origin; \<open>rank_of\<close> and \<open>file_of\<close> of types.c agree with it.  The king has left its
  origin and the rook the destination: the side's king squares are the landing square and
  the earlier ones without the origin, its rook squares the landing square and the earlier
  ones without the destination.
\<close>

theorem play_castling_squares:
  assumes bo: "board_ok before" and mo: "move_ok before m"
    and king: "piece_on before (fsq m) = KING"
    and own: "bb_test (byColor before (turn before)) (tsq m)"
  shows "let us = turn before;
             ksq = 8 * (fsq m div 8) + (if tsq m > fsq m then 6 else 2);
             rsq = 8 * (fsq m div 8) + (if tsq m > fsq m then 5 else 3);
             after = play Z before m
         in 0 \<le> fsq m \<and> fsq m < 64
            \<and> ksq div 8 = fsq m div 8 \<and> rsq div 8 = fsq m div 8
            \<and> ksq mod 8 = (if tsq m > fsq m then 6 else 2)
            \<and> rsq mod 8 = (if tsq m > fsq m then 5 else 3)
            \<and> rank_of ksq = rank_of (fsq m) \<and> rank_of rsq = rank_of (fsq m)
            \<and> file_of ksq = (if tsq m > fsq m then FILE_G else FILE_C)
            \<and> file_of rsq = (if tsq m > fsq m then FILE_F else FILE_D)
            \<and> bb_test (get_bb after us KING) ksq \<and> bb_test (get_bb after us ROOK) rsq
            \<and> (\<forall>sq. square_ok sq \<longrightarrow>
                  (bb_test (get_bb after us KING) sq
                    \<longleftrightarrow> sq = ksq \<or> (sq \<noteq> fsq m \<and> bb_test (get_bb before us KING) sq)))
            \<and> (\<forall>sq. square_ok sq \<longrightarrow>
                  (bb_test (get_bb after us ROOK) sq
                    \<longleftrightarrow> sq = rsq \<or> (sq \<noteq> tsq m \<and> bb_test (get_bb before us ROOK) sq)))"
proof -
  define us where "us = turn before"
  define ksq where "ksq = 8 * (fsq m div 8) + (if tsq m > fsq m then 6 else (2 :: int))"
  define rsq where "rsq = 8 * (fsq m div 8) + (if tsq m > fsq m then 5 else (3 :: int))"
  define after where "after = play Z before m"
  from bo obtain B where rb: "rep B before" using board_ok_rep by blast
  from mo have us: "color_ok us" and sf: "square_ok (fsq m)" and st: "square_ok (tsq m)"
    and ne: "fsq m \<noteq> tsq m" and ownf: "bb_test (byColor before us) (fsq m)"
    by (simp_all add: move_ok_def us_def)
  have kc: "(if tsq m > fsq m then square (rank_of (fsq m)) FILE_G
             else square (rank_of (fsq m)) FILE_C) = ksq"
    and rc: "(if tsq m > fsq m then square (rank_of (fsq m)) FILE_F
             else square (rank_of (fsq m)) FILE_D) = rsq"
    by (simp_all add: castle_squares_abs [OF sf] ksq_def rsq_def)
  from mo own have co: "castle_ok before m" by (simp add: move_ok_def)
  have KING_ok: "piece_ok KING" and ROOK_ok: "piece_ok ROOK" and kr: "KING \<noteq> ROOK" "KING \<noteq> PAWN"
    by (simp_all add: piece_ok_set enum_defs)
  from ownf us rb obtain pc where pc: "B (nat (fsq m)) = Some (us, pc)"
    by (auto simp: rep_def bb_test_iff)
  from rep_piece_on [OF rb pc] king have Bf: "B (nat (fsq m)) = Some (us, KING)"
    using pc by simp
  from own us rb obtain pt where pt: "B (nat (tsq m)) = Some (us, pt)"
    by (auto simp: rep_def bb_test_iff us_def)
  from co have "piece_on before (tsq m) = ROOK" by (simp add: castle_ok_def Let_def)
  with rep_piece_on [OF rb pt] have Bt: "B (nat (tsq m)) = Some (us, ROOK)"
    using pt by simp
  from castle_squares [OF sf] have sk: "square_ok ksq" and sr: "square_ok rsq" and krn: "ksq \<noteq> rsq"
    unfolding kc [symmetric] rc [symmetric] by auto
  from co have ck: "ksq = fsq m \<or> ksq = tsq m \<or> \<not> bb_test (occupied before) ksq"
    and cr: "rsq = fsq m \<or> rsq = tsq m \<or> \<not> bb_test (occupied before) rsq"
    unfolding castle_ok_def Let_def kc rc by blast+
  from ck rb have Bk: "ksq = fsq m \<or> ksq = tsq m \<or> B (nat ksq) = None"
    by (auto dest: rep_not_occupied)
  from cr rb have Br: "rsq = fsq m \<or> rsq = tsq m \<or> B (nat rsq) = None"
    by (auto dest: rep_not_occupied)
  have "play_abs B before m
      = B(nat (fsq m) := None, nat (tsq m) := None,
          nat (if tsq m > fsq m then square (rank_of (fsq m)) FILE_G
               else square (rank_of (fsq m)) FILE_C) \<mapsto> (us, KING),
          nat (if tsq m > fsq m then square (rank_of (fsq m)) FILE_F
               else square (rank_of (fsq m)) FILE_D) \<mapsto> (us, ROOK))"
    using king own kr by (simp add: play_abs_def Let_def us_def)
  then have pa: "play_abs B before m
      = B(nat (fsq m) := None, nat (tsq m) := None, nat ksq \<mapsto> (us, KING), nat rsq \<mapsto> (us, ROOK))"
    unfolding kc rc .
  from rb mo have ra: "rep (play_abs B before m) after"
    unfolding after_def by (rule play_refines(1))
  have gk: "bb_test (get_bb after us KING) sq
      \<longleftrightarrow> sq = ksq \<or> (sq \<noteq> fsq m \<and> bb_test (get_bb before us KING) sq)" if "square_ok sq" for sq
    using that sf st sk sr krn Bf Bt Bk Br kr
    by (auto simp: bb_test_iff rep_get_bb [OF ra us KING_ok] rep_get_bb [OF rb us KING_ok] pa
        square_ok_nat_eq)
  have gr: "bb_test (get_bb after us ROOK) sq
      \<longleftrightarrow> sq = rsq \<or> (sq \<noteq> tsq m \<and> bb_test (get_bb before us ROOK) sq)" if "square_ok sq" for sq
    using that sf st sk sr krn Bf Bt Bk Br kr
    by (auto simp: bb_test_iff rep_get_bb [OF ra us ROOK_ok] rep_get_bb [OF rb us ROOK_ok] pa
        square_ok_nat_eq)
  from sf have f64: "0 \<le> fsq m" "fsq m < 64" by (simp_all add: square_ok_iff)
  then have d8: "0 \<le> fsq m div 8" "fsq m div 8 < 8" by simp_all
  have ar: "ksq div 8 = fsq m div 8" "rsq div 8 = fsq m div 8"
    "ksq mod 8 = (if tsq m > fsq m then 6 else 2)"
    "rsq mod 8 = (if tsq m > fsq m then 5 else 3)"
    by (simp_all add: ksq_def rsq_def)
  from sk sr have nn: "0 \<le> ksq" "0 \<le> rsq" by (simp_all add: square_ok_iff)
  have rf: "rank_of ksq = rank_of (fsq m)" "rank_of rsq = rank_of (fsq m)"
    "file_of ksq = (if tsq m > fsq m then FILE_G else FILE_C)"
    "file_of rsq = (if tsq m > fsq m then FILE_F else FILE_D)"
    using nn f64 ar by (simp_all add: rank_of_nonneg file_of_nonneg enum_defs)
  from gk [OF sk] gr [OF sr] gk gr rf ar f64 show ?thesis
    unfolding Let_def us_def [symmetric] ksq_def [symmetric]
      rsq_def [symmetric] after_def [symmetric]
    by blast
qed

theorem play_castling_squares_witness:
  "board_ok sample_pos \<and> move_ok sample_pos e1h1 \<and> piece_on sample_pos (fsq e1h1) = KING
   \<and> bb_test (byColor sample_pos (turn sample_pos)) (tsq e1h1)
   \<and> bb_test (get_bb (play sample_zobrist sample_pos e1h1) 0 KING) 6
   \<and> bb_test (get_bb (play sample_zobrist sample_pos e1h1) 0 ROOK) 5
   \<and> \<not> bb_test (get_bb (play sample_zobrist sample_pos e1h1) 0 KING) 4
   \<and> \<not> bb_test (get_bb (play sample_zobrist sample_pos e1h1) 0 ROOK) 7
   \<and> board_ok sample_pos_black \<and> move_ok sample_pos_black e8h8
   \<and> piece_on sample_pos_black (fsq e8h8) = KING
   \<and> bb_test (byColor sample_pos_black (turn sample_pos_black)) (tsq e8h8)
   \<and> bb_test (get_bb (play sample_zobrist sample_pos_black e8h8) 1 KING) 62
   \<and> bb_test (get_bb (play sample_zobrist sample_pos_black e8h8) 1 ROOK) 61
   \<and> \<not> bb_test (get_bb (play sample_zobrist sample_pos_black e8h8) 1 KING) 60
   \<and> \<not> bb_test (get_bb (play sample_zobrist sample_pos_black e8h8) 1 ROOK) 63
   \<and> \<not> bb_test (get_bb (play sample_zobrist sample_pos_black e8h8) 1 KING) 6
   \<and> \<not> bb_test (get_bb (play sample_zobrist sample_pos_black e8h8) 1 ROOK) 5
   \<and> move_ok sample_pos_black e8a8
   \<and> bb_test (byColor sample_pos_black (turn sample_pos_black)) (tsq e8a8)
   \<and> bb_test (get_bb (play sample_zobrist sample_pos_black e8a8) 1 KING) 58
   \<and> bb_test (get_bb (play sample_zobrist sample_pos_black e8a8) 1 ROOK) 59
   \<and> \<not> bb_test (get_bb (play sample_zobrist sample_pos_black e8a8) 1 KING) 60
   \<and> \<not> bb_test (get_bb (play sample_zobrist sample_pos_black e8a8) 1 ROOK) 56
   \<and> \<not> bb_test (get_bb (play sample_zobrist sample_pos_black e8a8) 1 KING) 2
   \<and> \<not> bb_test (get_bb (play sample_zobrist sample_pos_black e8a8) 1 ROOK) 3"
proof -
  have k: "piece_on sample_pos (fsq e1h1) = KING"
    by (simp add: e1h1_def sample_piece_on)
  have o: "bb_test (byColor sample_pos (turn sample_pos)) (tsq e1h1)"
    by (simp add: e1h1_def bb_test_numeral)
  have s: "square_ok 4" "square_ok 7" "square_ok 60" "square_ok 63" "square_ok 56"
    "square_ok 6" "square_ok 5" "square_ok 2" "square_ok 3"
    by (simp_all add: square_ok_iff)
  from play_castling_squares [OF sample_board_ok sample_e1h1_ok k o, of sample_zobrist] s
  have a: "bb_test (get_bb (play sample_zobrist sample_pos e1h1) 0 KING) 6"
    "bb_test (get_bb (play sample_zobrist sample_pos e1h1) 0 ROOK) 5"
    "\<not> bb_test (get_bb (play sample_zobrist sample_pos e1h1) 0 KING) 4"
    "\<not> bb_test (get_bb (play sample_zobrist sample_pos e1h1) 0 ROOK) 7"
    by (simp_all add: Let_def e1h1_def)
  have kb: "piece_on sample_pos_black (fsq e8h8) = KING"
    "piece_on sample_pos_black (fsq e8a8) = KING"
    by (simp_all add: e8h8_def e8a8_def sample_black_piece_on)
  have ob: "bb_test (byColor sample_pos_black (turn sample_pos_black)) (tsq e8h8)"
    "bb_test (byColor sample_pos_black (turn sample_pos_black)) (tsq e8a8)"
    by (simp_all add: e8h8_def e8a8_def bb_test_numeral)
  have g: "\<not> bb_test (get_bb sample_pos_black 1 KING) 6"
    "\<not> bb_test (get_bb sample_pos_black 1 ROOK) 5"
    "\<not> bb_test (get_bb sample_pos_black 1 KING) 2"
    "\<not> bb_test (get_bb sample_pos_black 1 ROOK) 3"
    by (simp_all add: get_bb_def bb_test_numeral enum_defs)
  from play_castling_squares [OF sample_black_board_ok sample_e8h8_ok kb(1) ob(1), of sample_zobrist] s g
  have b: "bb_test (get_bb (play sample_zobrist sample_pos_black e8h8) 1 KING) 62"
    "bb_test (get_bb (play sample_zobrist sample_pos_black e8h8) 1 ROOK) 61"
    "\<not> bb_test (get_bb (play sample_zobrist sample_pos_black e8h8) 1 KING) 60"
    "\<not> bb_test (get_bb (play sample_zobrist sample_pos_black e8h8) 1 ROOK) 63"
    "\<not> bb_test (get_bb (play sample_zobrist sample_pos_black e8h8) 1 KING) 6"
    "\<not> bb_test (get_bb (play sample_zobrist sample_pos_black e8h8) 1 ROOK) 5"
    by (simp_all add: Let_def e8h8_def)
  from play_castling_squares [OF sample_black_board_ok sample_e8a8_ok kb(2) ob(2), of sample_zobrist] s g
  have c: "bb_test (get_bb (play sample_zobrist sample_pos_black e8a8) 1 KING) 58"
    "bb_test (get_bb (play sample_zobrist sample_pos_black e8a8) 1 ROOK) 59"
    "\<not> bb_test (get_bb (play sample_zobrist sample_pos_black e8a8) 1 KING) 60"
    "\<not> bb_test (get_bb (play sample_zobrist sample_pos_black e8a8) 1 ROOK) 56"
    "\<not> bb_test (get_bb (play sample_zobrist sample_pos_black e8a8) 1 KING) 2"
    "\<not> bb_test (get_bb (play sample_zobrist sample_pos_black e8a8) 1 ROOK) 3"
    by (simp_all add: Let_def e8a8_def)
  show ?thesis
    by (intro conjI sample_board_ok sample_e1h1_ok k o a sample_black_board_ok sample_e8h8_ok
        sample_e8a8_ok kb(1) ob b c)
qed

section \<open>Captures\<close>



section \<open>The parent position is not written\<close>

lemma modify_apply: "modify a f h x = (if x = a then f (h a) else h x)"
  by (simp add: modify_def)

lemma play_store_other: "a \<noteq> this \<Longrightarrow> play_store Z this before m h a = h a"
  by (simp add: play_store_def Let_def modify_apply)

lemma play_store_this:
  "this \<noteq> before \<Longrightarrow> play_store Z this before m h this = play Z (h before) m"
  by (simp add: play_store_def play_def play_pawn_def play_piece_def Let_def modify_apply)

text \<open>
  C3.  When the object \<open>this\<close> that \<open>play\<close> writes is not the parent object
  \<open>before\<close>: after \<open>play\<close> the store holds the parent unchanged (the whole record,
  so each of byColor, byPiece, turn, castlableRooks, epSquare, rule50 and key), holds at
  \<open>this\<close> the position \<open>play\<close> computes from the parent, and is unchanged at every
  other address.
\<close>

theorem play_store_leaves_parent:
  assumes "this \<noteq> before"
  shows "play_store Z this before m h before = h before
    \<and> play_store Z this before m h this = play Z (h before) m
    \<and> (\<forall>a. a \<noteq> this \<longrightarrow> play_store Z this before m h a = h a)"
  using assms by (simp add: play_store_other play_store_this)

theorem play_store_leaves_parent_witness:
  "(1 :: nat) \<noteq> 0
   \<and> play_store sample_zobrist 1 0 e2e4 (\<lambda>_. sample_pos) 0 = sample_pos
   \<and> play_store sample_zobrist 1 0 e2e4 (\<lambda>_. sample_pos) 1 = play sample_zobrist sample_pos e2e4"
proof -
  have d: "(1 :: nat) \<noteq> 0" by simp
  from play_store_leaves_parent [OF d, of sample_zobrist e2e4 "\<lambda>_. sample_pos"] d
  show ?thesis by simp
qed

section \<open>\<open>set_pos\<close> on a well-formed description\<close>

lemma ord_values:
  "ord (CHR ''N'') = 78" "ord (CHR ''B'') = 66" "ord (CHR ''R'') = 82" "ord (CHR ''Q'') = 81"
  "ord (CHR ''K'') = 75" "ord (CHR ''P'') = 80" "ord (CHR ''n'') = 110" "ord (CHR ''b'') = 98"
  "ord (CHR ''r'') = 114" "ord (CHR ''q'') = 113" "ord (CHR ''k'') = 107" "ord (CHR ''p'') = 112"
  "ord (CHR ''/'') = 47" "ord (CHR ''0'') = 48" "ord (CHR ''1'') = 49" "ord (CHR ''2'') = 50"
  "ord (CHR ''3'') = 51" "ord (CHR ''4'') = 52" "ord (CHR ''5'') = 53" "ord (CHR ''6'') = 54"
  "ord (CHR ''7'') = 55" "ord (CHR ''8'') = 56" "ord (CHR ''9'') = 57"
  by (simp_all add: ord_def)

lemma place_char_slash: "place_char Z (CHR ''/'') sP = (fst sP - 16, snd sP)"
  by (simp add: place_char_def isdigit_def ord_values)

lemma place_char_digits:
  "place_char Z (CHR ''1'') sP = (fst sP + 1, snd sP)"
  "place_char Z (CHR ''2'') sP = (fst sP + 2, snd sP)"
  "place_char Z (CHR ''3'') sP = (fst sP + 3, snd sP)"
  "place_char Z (CHR ''4'') sP = (fst sP + 4, snd sP)"
  "place_char Z (CHR ''5'') sP = (fst sP + 5, snd sP)"
  "place_char Z (CHR ''6'') sP = (fst sP + 6, snd sP)"
  "place_char Z (CHR ''7'') sP = (fst sP + 7, snd sP)"
  "place_char Z (CHR ''8'') sP = (fst sP + 8, snd sP)"
  by (simp_all add: place_char_def isdigit_def ord_values)

lemma place_char_digit:
  assumes "c \<in> set ''12345678''"
  shows "place_char Z c sP = (fst sP + int (nat (ord c - ord (CHR ''0''))), snd sP)"
  using assms by (auto simp: place_char_digits ord_values)

lemma place_char_letters:
  "place_char Z (CHR ''N'') sP = (fst sP + 1, set_sq Z 0 0 (fst sP) (snd sP))"
  "place_char Z (CHR ''B'') sP = (fst sP + 1, set_sq Z 0 1 (fst sP) (snd sP))"
  "place_char Z (CHR ''R'') sP = (fst sP + 1, set_sq Z 0 2 (fst sP) (snd sP))"
  "place_char Z (CHR ''Q'') sP = (fst sP + 1, set_sq Z 0 3 (fst sP) (snd sP))"
  "place_char Z (CHR ''K'') sP = (fst sP + 1, set_sq Z 0 4 (fst sP) (snd sP))"
  "place_char Z (CHR ''P'') sP = (fst sP + 1, set_sq Z 0 5 (fst sP) (snd sP))"
  "place_char Z (CHR ''n'') sP = (fst sP + 1, set_sq Z 1 0 (fst sP) (snd sP))"
  "place_char Z (CHR ''b'') sP = (fst sP + 1, set_sq Z 1 1 (fst sP) (snd sP))"
  "place_char Z (CHR ''r'') sP = (fst sP + 1, set_sq Z 1 2 (fst sP) (snd sP))"
  "place_char Z (CHR ''q'') sP = (fst sP + 1, set_sq Z 1 3 (fst sP) (snd sP))"
  "place_char Z (CHR ''k'') sP = (fst sP + 1, set_sq Z 1 4 (fst sP) (snd sP))"
  "place_char Z (CHR ''p'') sP = (fst sP + 1, set_sq Z 1 5 (fst sP) (snd sP))"
  by (simp_all add: place_char_def place_piece_def PieceLabel_def isdigit_def ord_values piece_ok_set)

lemma place_char_letter:
  assumes "c \<in> set ''NBRQKPnbrqkp''"
  shows "\<exists>col pc. color_ok col \<and> piece_ok pc
    \<and> (\<forall>sP. place_char Z c sP = (fst sP + 1, set_sq Z col pc (fst sP) (snd sP)))"
proof -
  have ok: "color_ok 0" "color_ok 1" "piece_ok 0" "piece_ok 1" "piece_ok 2" "piece_ok 3"
    "piece_ok 4" "piece_ok 5"
    by (simp_all add: piece_ok_set)
  from assms have "c = CHR ''N'' \<or> c = CHR ''B'' \<or> c = CHR ''R'' \<or> c = CHR ''Q''
    \<or> c = CHR ''K'' \<or> c = CHR ''P'' \<or> c = CHR ''n'' \<or> c = CHR ''b'' \<or> c = CHR ''r''
    \<or> c = CHR ''q'' \<or> c = CHR ''k'' \<or> c = CHR ''p''"
    by simp
  then show ?thesis
    using ok place_char_letters [of Z] by (elim disjE) blast+
qed

lemma placement_repk:
  assumes "wf_rows r k cs" "r \<le> 7" "k \<le> 8" "repk Z d B P"
    and "\<And>n. B n \<noteq> None \<Longrightarrow> 8 * (r + 1) \<le> n \<or> (8 * r \<le> n \<and> n < 8 * r + k)"
  shows "\<exists>B'. repk Z d B' (snd (fold (place_char Z) cs (int (8 * r + k), P)))"
  using assms
proof (induction cs arbitrary: r k B P)
  case Nil
  then show ?case by auto
next
  case (Cons c cs)
  show ?case
  proof (cases "c = CHR ''/''")
    case True
    with Cons.prems(1) have k: "k = 8" and r: "0 < r" and wf: "wf_rows (r - 1) 0 cs" by simp_all
    from r k have sq: "int (8 * r + k) - 16 = int (8 * (r - 1) + 0)" by simp
    have "\<exists>B'. repk Z d B' (snd (fold (place_char Z) cs (int (8 * (r - 1) + 0), P)))"
    proof (rule Cons.IH [OF wf _ _ Cons.prems(4)])
      show "r - 1 \<le> 7" using Cons.prems(2) by simp
      show "(0 :: nat) \<le> 8" by simp
      fix n assume "B n \<noteq> None"
      from Cons.prems(5) [OF this] k r
      show "8 * (r - 1 + 1) \<le> n \<or> (8 * (r - 1) \<le> n \<and> n < 8 * (r - 1) + 0)" by auto
    qed
    then show ?thesis
      using True sq by (simp add: place_char_slash)
  next
    case ns: False
    show ?thesis
    proof (cases "c \<in> set ''12345678''")
      case True
      define dg where "dg = nat (ord c - ord (CHR ''0''))"
      from Cons.prems(1) ns True have k: "k + dg \<le> 8" and wf: "wf_rows r (k + dg) cs"
        by (simp_all add: dg_def)
      have "\<exists>B'. repk Z d B' (snd (fold (place_char Z) cs (int (8 * r + (k + dg)), P)))"
      proof (rule Cons.IH [OF wf Cons.prems(2) k Cons.prems(4)])
        fix n assume "B n \<noteq> None"
        from Cons.prems(5) [OF this]
        show "8 * (r + 1) \<le> n \<or> (8 * r \<le> n \<and> n < 8 * r + (k + dg))" by auto
      qed
      moreover have "place_char Z c (int (8 * r + k), P) = (int (8 * r + (k + dg)), P)"
        using place_char_digit [OF True, of Z "(int (8 * r + k), P)"] by (simp add: dg_def)
      ultimately show ?thesis by simp
    next
      case nd: False
      with Cons.prems(1) ns have lt: "c \<in> set ''NBRQKPnbrqkp''" and k: "k < 8"
        and wf: "wf_rows r (Suc k) cs"
        by (simp_all split: if_splits)
      from place_char_letter [OF lt, of Z] obtain col pc where col: "color_ok col"
        and pc: "piece_ok pc"
        and pl: "\<And>sP. place_char Z c sP = (fst sP + 1, set_sq Z col pc (fst sP) (snd sP))"
        by blast
      define sq where "sq = int (8 * r + k)"
      from k Cons.prems(2) have sqok: "square_ok sq" and nsq: "nat sq = 8 * r + k"
        by (simp_all add: sq_def square_ok_iff)
      have free: "B (nat sq) = None"
      proof (rule ccontr)
        assume "B (nat sq) \<noteq> None"
        from Cons.prems(5) [OF this] k show False by (simp add: nsq)
      qed
      from Cons.prems(4) free sqok col pc
      have rk: "repk Z d (B(nat sq \<mapsto> (col, pc))) (set_sq Z col pc sq P)"
        by (rule repk_set)
      have "\<exists>B'. repk Z d B' (snd (fold (place_char Z) cs (int (8 * r + Suc k), set_sq Z col pc sq P)))"
      proof (rule Cons.IH [OF wf Cons.prems(2) _ rk])
        show "Suc k \<le> 8" using k by simp
        fix n assume a: "(B(nat sq \<mapsto> (col, pc))) n \<noteq> None"
        show "8 * (r + 1) \<le> n \<or> (8 * r \<le> n \<and> n < 8 * r + Suc k)"
        proof (cases "n = nat sq")
          case True then show ?thesis by (simp add: nsq)
        next
          case False
          with a have "B n \<noteq> None" by simp
          from Cons.prems(5) [OF this] show ?thesis by auto
        qed
      qed
      moreover have "place_char Z c (int (8 * r + k), P) = (int (8 * r + Suc k), set_sq Z col pc sq P)"
        by (simp add: pl sq_def)
      ultimately show ?thesis by simp
    qed
  qed
qed

lemma word_xor_eq_0: "(a :: 64 word) XOR b = 0 \<longleftrightarrow> a = b"
  by (auto simp: bit_eq_iff bit_xor_iff)

lemma repk_clear_pos: "repk Z 0 (\<lambda>_. None) clear_pos"
  by (simp add: repk_def rep_def key_diff_def key_pieces_expand clear_pos_def get_bb_def key_bits_zero)

lemma set_pos_placement:
  "set_pos Z fen =
     (let P = snd (fold (place_char Z) (fst (next_token [] fen)) (A8, clear_pos));
          side = fst (next_token (fst (next_token [] fen)) (snd (next_token [] fen)))
      in (set_pos Z fen)\<lparr>byColor := byColor P, byPiece := byPiece P,
            key := (if side = ''w'' then key P else key P XOR zturn Z),
            turn := (if side = ''w'' then WHITE else BLACK)\<rparr>)"
  by (simp add: set_pos_def Let_def split_beta)

lemma set_pos_repk:
  assumes "wf_placement (fst (next_token [] fen))"
  shows "\<exists>B. rep B (set_pos Z fen)" and "key_ok Z (set_pos Z fen)"
proof -
  define P where "P = snd (fold (place_char Z) (fst (next_token [] fen)) (A8, clear_pos))"
  define side where "side = fst (next_token (fst (next_token [] fen)) (snd (next_token [] fen)))"
  have "\<exists>B'. repk Z 0 B' (snd (fold (place_char Z) (fst (next_token [] fen)) (int (8 * 7 + 0), clear_pos)))"
    using assms unfolding wf_placement_def
    by (rule placement_repk [OF _ _ _ repk_clear_pos]) simp_all
  then obtain B where rk: "repk Z 0 B P" by (auto simp: P_def A8_def)
  then have r: "rep B P" and k: "key P = key_pieces Z P"
    by (simp_all add: repk_def key_diff_def word_xor_eq_0)
  have bc: "byColor (set_pos Z fen) = byColor P" and bp: "byPiece (set_pos Z fen) = byPiece P"
    and ky: "key (set_pos Z fen) = (if side = ''w'' then key P else key P XOR zturn Z)"
    and tn: "turn (set_pos Z fen) = (if side = ''w'' then WHITE else BLACK)"
    by (subst set_pos_placement, simp add: Let_def P_def side_def)+
  from r have "rep B (set_pos Z fen)" by (simp add: rep_def bc bp)
  then show "\<exists>B. rep B (set_pos Z fen)" by blast
  have "key_pieces Z (set_pos Z fen) = key_pieces Z P"
    by (simp add: key_pieces_def get_bb_def bc bp)
  then show "key_ok Z (set_pos Z fen)"
    by (simp add: key_ok_def key_recomputed_def Let_def ky tn k enum_defs)
qed

lemma wf_fen_placement: "wf_fen fen \<Longrightarrow> wf_placement (fst (next_token [] fen))"
  by (simp add: wf_fen_def Let_def split_beta)

lemma reachable_board_ok: "reachable Z P \<Longrightarrow> board_ok P"
proof (induction rule: reachable.induct)
  case (start fen)
  then have "wf_placement (fst (next_token [] fen))" by (rule wf_fen_placement)
  then obtain B where "rep B (set_pos Z fen)" using set_pos_repk(1) by blast
  then show ?case by (rule rep_board_ok)
next
  case (step P m)
  then show ?case by (intro board_ok_play)
qed

text \<open>
  C4.  In every position reached by \<open>set_pos\<close> from a well-formed description followed
  by any sequence of admissible moves applied by \<open>play\<close>: no square is in both colour
  sets, and every occupied square of the board is in exactly one colour set and in exactly
  one piece-kind set.
\<close>

theorem reachable_board_invariant:
  assumes "reachable Z P"
  shows "byColor P WHITE AND byColor P BLACK = 0
    \<and> (\<forall>sq. square_ok sq \<longrightarrow> bb_test (occupied P) sq \<longrightarrow>
          (\<exists>!c. color_ok c \<and> bb_test (byColor P c) sq)
          \<and> (\<exists>!p. piece_ok p \<and> bb_test (byPiece P p) sq))"
proof -
  from assms have bo: "board_ok P" by (rule reachable_board_ok)
  then obtain B where r: "rep B P" using board_ok_rep by blast
  have "(\<exists>!c. color_ok c \<and> bb_test (byColor P c) sq) \<and> (\<exists>!p. piece_ok p \<and> bb_test (byPiece P p) sq)"
    if "bb_test (occupied P) sq" for sq
  proof -
    from that r obtain c p where B: "B (nat sq) = Some (c, p)"
      by (auto simp: bb_test_iff rep_occupied)
    with r have ok: "color_ok c" "piece_ok p" by (auto simp: rep_def)
    have "color_ok c' \<Longrightarrow> bb_test (byColor P c') sq \<longleftrightarrow> c' = c" for c'
      using r B by (auto simp: rep_def bb_test_iff)
    moreover have "piece_ok p' \<Longrightarrow> bb_test (byPiece P p') sq \<longleftrightarrow> p' = p" for p'
      using r B by (auto simp: rep_def bb_test_iff)
    ultimately show ?thesis using ok by blast
  qed
  moreover from bo have "byColor P WHITE AND byColor P BLACK = 0" by (simp add: board_ok_def)
  ultimately show ?thesis by blast
qed

lemma set_pos_sample:
  "byColor (set_pos Z sample_fen) = byColor sample_pos"
  "byPiece (set_pos Z sample_fen) = byPiece sample_pos"
  "turn (set_pos Z sample_fen) = turn sample_pos"
  "epSquare (set_pos Z sample_fen) = epSquare sample_pos"
  "castlableRooks (set_pos Z sample_fen) = castlableRooks sample_pos"
  "rule50 (set_pos Z sample_fen) = rule50 sample_pos"
  by (simp_all add: set_pos_def sample_fen_def sample_pos_def next_token_def isspace_def
      place_char_def place_piece_def isdigit_def isupper_def toupper_def PieceLabel_def
      piece_ok_def BOUNDS_def castle_char_def char_at_def read_int_def clear_pos_def set_sq_def
      bb_set_def sq_mask_def square_def square_from_def enum_defs Let_def ord_def fun_eq_iff)

lemma sample_fen_wf: "wf_fen sample_fen"
  by (simp add: wf_fen_def sample_fen_def next_token_def isspace_def ord_def wf_placement_def
      wf_castling_def wf_ep_def isdigit_def Let_def)

lemma move_ok_fields:
  assumes c: "byColor P = byColor Q" and p: "byPiece P = byPiece Q" and t: "turn P = turn Q"
    and e: "epSquare P = epSquare Q"
  shows "move_ok P m = move_ok Q m"
proof -
  have po: "piece_on P sq = piece_on Q sq" for sq by (simp add: piece_on_def p)
  have oc: "occupied P = occupied Q" by (simp add: occupied_def c)
  have gb: "get_bb P col pc = get_bb Q col pc" for col pc by (simp add: get_bb_def c p)
  have co: "castle_ok P m = castle_ok Q m" by (simp only: castle_ok_def po oc)
  have pa: "pawn_ok P m = pawn_ok Q m" by (simp only: pawn_ok_def oc gb t e)
  show ?thesis by (simp only: move_ok_def c t po co pa)
qed

lemma sample_fen_e2e4_ok: "move_ok (set_pos Z sample_fen) e2e4"
  using move_ok_fields [OF set_pos_sample(1,2,3,4)] sample_e2e4_ok by simp

section \<open>The stored key against the recomputed key\<close>

text \<open>
  What \<open>play\<close> does to the distance between the stored key and the recomputation of
  \<open>key_ok\<close>: it adds the en-passant terms of the parent and of the child and the
  castling term of the rights that changed, and nothing else.  So the assertion
  \<open>key_ok\<close> at the end of \<open>play\<close> holds exactly when these terms cancel, and \<open>play\<close>
  keeps a key that includes the en-passant and castling terms (\<open>full_key\<close>) when the
  castling term is additive over bit-sets.
\<close>

lemma word_xor_cancel: "(a :: 64 word) XOR (a XOR b) = b"
  by (simp add: xor.assoc [symmetric])

lemma play_key_recomputed:
  assumes bo: "board_ok P" and mo: "move_ok P m"
  shows "key (play Z P m) XOR key_recomputed Z (play Z P m) =
     (key P XOR key_recomputed Z P) XOR zep Z (epSquare P) XOR zep Z (epSquare (play Z P m))
       XOR zcastling Z (castlableRooks P XOR castlableRooks (play Z P m))"
proof -
  from bo obtain B where r: "rep B P" using board_ok_rep by blast
  note kd = play_refines(2) [OF r mo, of Z, unfolded key_diff_def]
  from mo have "turn P = 0 \<or> turn P = 1" by (simp add: move_ok_def color_ok_iff)
  then show ?thesis
  proof
    assume t: "turn P = 0"
    then have "turn (play Z P m) = 1" by (simp add: play_turn_eq opp_color_simps)
    with t kd show ?thesis
      by (simp add: key_recomputed_def Let_def BLACK_def ac_simps word_xor_cancel)
  next
    assume t: "turn P = 1"
    then have "turn (play Z P m) = 0" by (simp add: play_turn_eq opp_color_simps)
    with t kd show ?thesis
      by (simp add: key_recomputed_def Let_def BLACK_def ac_simps word_xor_cancel)
  qed
qed

lemma play_key_ok_iff:
  assumes "board_ok P" "move_ok P m" "key_ok Z P"
  shows "key_ok Z (play Z P m) \<longleftrightarrow>
     zep Z (epSquare P) XOR zep Z (epSquare (play Z P m))
       XOR zcastling Z (castlableRooks P XOR castlableRooks (play Z P m)) = 0"
proof -
  from assms(3) have "key P XOR key_recomputed Z P = 0" by (simp add: key_ok_def)
  with play_key_recomputed [OF assms(1,2), of Z]
  have "key (play Z P m) XOR key_recomputed Z (play Z P m) =
      zep Z (epSquare P) XOR zep Z (epSquare (play Z P m))
       XOR zcastling Z (castlableRooks P XOR castlableRooks (play Z P m))"
    by simp
  then show ?thesis
    unfolding key_ok_def by (metis word_xor_eq_0)
qed

lemma play_preserves_full_key:
  assumes "board_ok P" "move_ok P m" "key P = full_key Z P"
    and lin: "\<And>a b. zcastling Z (a XOR b) = zcastling Z a XOR zcastling Z b"
  shows "key (play Z P m) = full_key Z (play Z P m)"
proof -
  from assms(3) have "key P XOR key_recomputed Z P = zep Z (epSquare P) XOR zcastling Z (castlableRooks P)"
    by (simp add: full_key_def ac_simps word_xor_cancel)
  with play_key_recomputed [OF assms(1,2), of Z]
  have e: "key (play Z P m) XOR key_recomputed Z (play Z P m) =
      zep Z (epSquare (play Z P m)) XOR zcastling Z (castlableRooks (play Z P m))"
    by (simp add: lin ac_simps word_xor_cancel)
  have "key (play Z P m) XOR full_key Z (play Z P m) =
      (key (play Z P m) XOR key_recomputed Z (play Z P m))
        XOR (zep Z (epSquare (play Z P m)) XOR zcastling Z (castlableRooks (play Z P m)))"
    by (simp add: full_key_def ac_simps)
  also have "\<dots> = 0" unfolding e by simp
  finally show ?thesis by (simp only: word_xor_eq_0)
qed

lemma sample_fen_reads:
  "piece_on (set_pos Z sample_fen) sq = piece_on sample_pos sq"
  "occupied (set_pos Z sample_fen) = occupied sample_pos"
  by (simp_all add: piece_on_def occupied_def set_pos_sample)

lemma sample_fen_e2e4_fields:
  "epSquare (play Z (set_pos Z sample_fen) e2e4) = 20"
  "castlableRooks (play Z (set_pos Z sample_fen) e2e4) = castlableRooks sample_pos"
proof -
  have e: "fsq e2e4 = 12" "tsq e2e4 = 28" by (simp_all add: e2e4_def)
  have o: "\<not> bb_test (occupied sample_pos) 28"
    by (simp add: occupied_def bb_test_numeral enum_defs)
  show "epSquare (play Z (set_pos Z sample_fen) e2e4) = 20"
    by (simp add: play_epSquare_eq e sample_fen_reads sample_piece_on set_pos_sample
        push_inc_def enum_defs)
  show "castlableRooks (play Z (set_pos Z sample_fen) e2e4) = castlableRooks sample_pos"
    by (simp add: play_castlableRooks_eq Let_def e sample_fen_reads sample_piece_on o
        set_pos_sample)
qed

lemma word_xor_same_iff: "(a :: 64 word) XOR x = a \<longleftrightarrow> x = 0"
  by (auto simp: bit_eq_iff bit_xor_iff)

text \<open>
  C1.  The stored key is meant to equal, after \<open>set_pos\<close> on a well-formed description
  and after every admissible \<open>play\<close>, the fingerprint recomputed from scratch,
  en-passant and castling terms included (\<open>full_key\<close>).  It does not.  At the description
  \<open>sample_fen\<close> with the sample Zobrist service: \<open>set_pos\<close> leaves the key equal to the
  recomputation of \<open>key_ok\<close> (pieces and side to move only), so it differs from
  \<open>full_key\<close> by the castling term of the three castlable rooks; and after the double
  pawn step e2-e4 the assertion \<open>key_ok\<close> that ends \<open>play\<close> is false, because \<open>play\<close>
  has added the en-passant terms that \<open>key_ok\<close> does not recompute.
\<close>

theorem set_pos_play_key_mismatch:
  "wf_fen sample_fen \<and> move_ok (set_pos sample_zobrist sample_fen) e2e4
   \<and> key_ok sample_zobrist (set_pos sample_zobrist sample_fen)
   \<and> full_key sample_zobrist (set_pos sample_zobrist sample_fen)
       = key (set_pos sample_zobrist sample_fen) XOR 72057594038984833
   \<and> key (set_pos sample_zobrist sample_fen) \<noteq> full_key sample_zobrist (set_pos sample_zobrist sample_fen)
   \<and> \<not> key_ok sample_zobrist (play sample_zobrist (set_pos sample_zobrist sample_fen) e2e4)"
proof -
  let ?Z = sample_zobrist
  let ?P = "set_pos ?Z sample_fen"
  from sample_fen_wf have wp: "wf_placement (fst (next_token [] sample_fen))"
    by (rule wf_fen_placement)
  from set_pos_repk(2) [OF wp] have k0: "key_ok ?Z ?P" .
  from set_pos_repk(1) [OF wp] obtain B where "rep B ?P" by blast
  then have bo: "board_ok ?P" by (rule rep_board_ok)
  have mo: "move_ok ?P e2e4" by (rule sample_fen_e2e4_ok)
  from k0 have "full_key ?Z ?P = key ?P XOR (zep ?Z 64 XOR zcastling ?Z 72057594037928065)"
    by (simp add: key_ok_def full_key_def set_pos_sample)
  also have "zep ?Z 64 XOR zcastling ?Z 72057594037928065 = 72057594038984833"
    by (simp add: sample_zobrist_def)
  finally have fk: "full_key ?Z ?P = key ?P XOR 72057594038984833" .
  then have ne: "key ?P \<noteq> full_key ?Z ?P"
    by (simp add: word_xor_same_iff eq_commute [of "key ?P"])
  have "key_ok ?Z (play ?Z ?P e2e4) \<longleftrightarrow>
      zep ?Z 64 XOR zep ?Z 20 XOR zcastling ?Z 0 = 0"
    using play_key_ok_iff [OF bo mo k0]
    by (simp add: sample_fen_e2e4_fields set_pos_sample)
  also have "\<dots> \<longleftrightarrow> False"
    by (simp add: sample_zobrist_def)
  finally have nk: "\<not> key_ok ?Z (play ?Z ?P e2e4)" by simp
  from sample_fen_wf mo k0 fk ne nk show ?thesis by blast
qed

section \<open>A reached position\<close>

lemma sample_play_e4: "bb_test (occupied (play Z (set_pos Z sample_fen) e2e4)) 28"
  by (simp add: play_def play_pawn_def Let_def occupied_def clear_sq_def set_sq_def
      sample_fen_reads sample_piece_on set_pos_sample e2e4_def bb_test_numeral bb_set_def
      bb_clear_def sq_mask_def get_epsq_def rank_of_nonneg enum_defs push_inc_def)

theorem reachable_board_invariant_witness:
  "reachable sample_zobrist (play sample_zobrist (set_pos sample_zobrist sample_fen) e2e4)
   \<and> byColor (play sample_zobrist (set_pos sample_zobrist sample_fen) e2e4) WHITE
       AND byColor (play sample_zobrist (set_pos sample_zobrist sample_fen) e2e4) BLACK = 0
   \<and> square_ok 28
   \<and> bb_test (occupied (play sample_zobrist (set_pos sample_zobrist sample_fen) e2e4)) 28
   \<and> (\<exists>!c. color_ok c
         \<and> bb_test (byColor (play sample_zobrist (set_pos sample_zobrist sample_fen) e2e4) c) 28)
   \<and> (\<exists>!p. piece_ok p
         \<and> bb_test (byPiece (play sample_zobrist (set_pos sample_zobrist sample_fen) e2e4) p) 28)"
proof -
  have r: "reachable sample_zobrist (play sample_zobrist (set_pos sample_zobrist sample_fen) e2e4)"
    by (intro reachable.step reachable.start sample_fen_wf sample_fen_e2e4_ok)
  have s: "square_ok 28" by (simp add: square_ok_iff)
  from reachable_board_invariant [OF r] r s sample_play_e4 [of sample_zobrist]
  show ?thesis by blast
qed

end
